theory Spec2Isabelle
  imports Complex_Main
begin

section \<open>Common utility functions of \<open>utilities.h\<close>\<close>

text \<open>
  The header consists of free-standing templates over a scalar type \<open>T\<close>. The templates
  that only compare and negate (\<open>WrapRange\<close>, \<open>ApplyDeadband\<close>) are modelled over a type
  variable with an ordering, a negation and a zero: nothing in them can round or overflow.
  The templates that compute (\<open>IsNumbersEqual\<close>, \<open>mapToRange\<close>) are modelled at the two
  scalar types of their callers: the 32-bit \<open>int\<close>, with two's complement wrap-around
  and truncating division, and the IEEE-754 binary64 \<open>double\<close>, with rounding to nearest
  (ties to even), infinities, NaN and signed zeros.
\<close>

subsection \<open>Errors\<close>

text \<open>
  Every exception and abort of the source is a value: \<open>assert\<close> failing, the
  \<open>std::out_of_range\<close> of \<open>std::string::at\<close>, \<open>substr\<close> and \<open>std::stod\<close>, the
  \<open>std::runtime_error\<close> thrown with a message, the \<open>std::invalid_argument\<close> of
  \<open>std::stod\<close>, a write past the end of a character buffer, and the trap of an integer
  division by zero (or of \<open>INT_MIN / -1\<close>).
\<close>

datatype error =
    AssertionFailed
  | OutOfRange
  | RuntimeError string
  | InvalidArgument
  | BufferOverflow
  | DivisionByZero

subsection \<open>Clamping and deadband\<close>


text \<open>\<open>ApplyDeadband( T x, T range )\<close>\<close>

definition ApplyDeadband :: "'a::{ord,uminus,zero} \<Rightarrow> 'a \<Rightarrow> 'a" where
  "ApplyDeadband x rng = (if x < rng \<and> x > - rng then 0 else x)"




subsection \<open>The 32-bit \<open>int\<close>\<close>

text \<open>
  An \<open>int\<close> is a mathematical integer in \<open>[-2^31, 2^31 - 1]\<close>; every arithmetic result
  is brought back into that range by two's complement wrap-around. (The C++ standard
  leaves signed overflow undefined; wrapping is what the compiled code does.)
\<close>

definition INT_MAX :: int where
  "INT_MAX = 2147483647"

definition wrap32 :: "int \<Rightarrow> int" where
  "wrap32 k = (k + 2147483648) mod 4294967296 - 2147483648"

definition is_int32 :: "int \<Rightarrow> bool" where
  "is_int32 k = (- 2147483648 \<le> k \<and> k \<le> 2147483647)"

definition int_add :: "int \<Rightarrow> int \<Rightarrow> int" where
  "int_add a b = wrap32 (a + b)"

definition int_sub :: "int \<Rightarrow> int \<Rightarrow> int" where
  "int_sub a b = wrap32 (a - b)"

definition int_mul :: "int \<Rightarrow> int \<Rightarrow> int" where
  "int_mul a b = wrap32 (a * b)"

text \<open>
  The quotient of two \<open>int\<close>s is truncated toward zero. A zero divisor, and
  \<open>INT_MIN / -1\<close>, do not return: the processor traps.
\<close>

definition truncate_div :: "int \<Rightarrow> int \<Rightarrow> int" where
  "truncate_div a b = sgn a * sgn b * (\<bar>a\<bar> div \<bar>b\<bar>)"

definition int_div :: "int \<Rightarrow> int \<Rightarrow> error + int" where
  "int_div a b =
     (if b = 0 then Inl DivisionByZero
      else if a = - 2147483648 \<and> b = - 1 then Inl DivisionByZero
      else Inr (truncate_div a b))"

text \<open>\<open>std::abs\<close> on an \<open>int\<close>: the negation of \<open>INT_MIN\<close> wraps to \<open>INT_MIN\<close>.\<close>

definition int_abs :: "int \<Rightarrow> int" where
  "int_abs a = (if a < 0 then wrap32 (- a) else a)"

subsection \<open>The binary64 \<open>double\<close>\<close>

text \<open>
  A finite double is \<open>m * 2^e\<close> with a 53-bit \<open>m\<close> and \<open>-1074 \<le> e \<le> 971\<close>. The binade of a
  positive real \<open>v\<close> is \<open>\<lfloor>log\<^sub>2 v\<rfloor>\<close>, kept within \<open>[-1022, 1023]\<close> (below it the subnormal
  numbers share the spacing of the lowest binade; above it the result overflows anyway).
  It is found by halving or doubling \<open>v\<close> until it lies in \<open>[1, 2)\<close>.
\<close>

definition pow2 :: "int \<Rightarrow> real" where
  "pow2 e = (if 0 \<le> e then 2 ^ nat e else 1 / 2 ^ nat (- e))"

fun halvings :: "nat \<Rightarrow> real \<Rightarrow> nat" where
  "halvings 0 v = 0"
| "halvings (Suc k) v = (if v < 2 then 0 else Suc (halvings k (v / 2)))"

fun doublings :: "nat \<Rightarrow> real \<Rightarrow> nat" where
  "doublings 0 v = 0"
| "doublings (Suc k) v = (if 1 \<le> v then 0 else Suc (doublings k (2 * v)))"

definition binade :: "real \<Rightarrow> int" where
  "binade v = (if 1 \<le> v then int (halvings 1023 v) else - int (doublings 1022 v))"

text \<open>Rounding to the nearest integer, a tie going to the even one.\<close>

definition round_half_even :: "real \<Rightarrow> int" where
  "round_half_even x =
     (let f = \<lfloor>x\<rfloor>; r = x - of_int f
      in if r < 1 / 2 then f
         else if 1 / 2 < r then f + 1
         else if even f then f else f + 1)"

text \<open>
  The spacing of the doubles in the binade of \<open>v\<close>, and \<open>v \<ge> 0\<close> rounded to the nearest
  multiple of it: the nearest double, unless the result reaches \<open>2^1024\<close>.
\<close>

definition quantum :: "real \<Rightarrow> real" where
  "quantum v = pow2 (binade v - 52)"

definition round_mag :: "real \<Rightarrow> real" where
  "round_mag v = of_int (round_half_even (v / quantum v)) * quantum v"

text \<open>
  A double is a NaN, an infinity with its sign, or a finite number given by its sign bit
  (\<open>True\<close> for negative) and its magnitude; \<open>Fin True 0\<close> is the negative zero. The
  operations below are those of IEEE 754 in the default rounding mode.
\<close>

datatype double = NaN | Infty bool | Fin bool real

fun val :: "double \<Rightarrow> real" where
  "val (Fin s m) = (if s then - m else m)"
| "val (Infty s) = 0"
| "val NaN = 0"

text \<open>
  The result of an operation whose exact magnitude is \<open>v\<close>: the nearest double, or the
  infinity when that is beyond the largest finite double. For a sum that is exactly zero
  the sign is given separately: negative only when both operands are.
\<close>

definition round_double :: "bool \<Rightarrow> real \<Rightarrow> double" where
  "round_double s v = (let r = round_mag v in if 2 ^ 1024 \<le> r then Infty s else Fin s r)"

definition round_sum :: "bool \<Rightarrow> real \<Rightarrow> double" where
  "round_sum zero_sign v = (if v = 0 then Fin zero_sign 0 else round_double (v < 0) \<bar>v\<bar>)"

fun fneg :: "double \<Rightarrow> double" where
  "fneg NaN = NaN"
| "fneg (Infty s) = Infty (\<not> s)"
| "fneg (Fin s m) = Fin (\<not> s) m"

fun fabs :: "double \<Rightarrow> double" where
  "fabs NaN = NaN"
| "fabs (Infty s) = Infty False"
| "fabs (Fin s m) = Fin False m"

fun fadd :: "double \<Rightarrow> double \<Rightarrow> double" where
  "fadd NaN b = NaN"
| "fadd (Infty s) NaN = NaN"
| "fadd (Infty s) (Infty t) = (if s = t then Infty s else NaN)"
| "fadd (Infty s) (Fin t n) = Infty s"
| "fadd (Fin s m) NaN = NaN"
| "fadd (Fin s m) (Infty t) = Infty t"
| "fadd (Fin s m) (Fin t n) = round_sum (s \<and> t) (val (Fin s m) + val (Fin t n))"

definition fsub :: "double \<Rightarrow> double \<Rightarrow> double" where
  "fsub a b = fadd a (fneg b)"

fun fmul :: "double \<Rightarrow> double \<Rightarrow> double" where
  "fmul NaN b = NaN"
| "fmul (Infty s) NaN = NaN"
| "fmul (Infty s) (Infty t) = Infty (s \<noteq> t)"
| "fmul (Infty s) (Fin t n) = (if n = 0 then NaN else Infty (s \<noteq> t))"
| "fmul (Fin s m) NaN = NaN"
| "fmul (Fin s m) (Infty t) = (if m = 0 then NaN else Infty (s \<noteq> t))"
| "fmul (Fin s m) (Fin t n) = round_double (s \<noteq> t) (m * n)"

fun fdiv :: "double \<Rightarrow> double \<Rightarrow> double" where
  "fdiv NaN b = NaN"
| "fdiv (Infty s) NaN = NaN"
| "fdiv (Infty s) (Infty t) = NaN"
| "fdiv (Infty s) (Fin t n) = Infty (s \<noteq> t)"
| "fdiv (Fin s m) NaN = NaN"
| "fdiv (Fin s m) (Infty t) = Fin (s \<noteq> t) 0"
| "fdiv (Fin s m) (Fin t n) =
     (if n = 0 then (if m = 0 then NaN else Infty (s \<noteq> t))
      else round_double (s \<noteq> t) (m / n))"

text \<open>The comparisons \<open><=\<close> and \<open>==\<close>: false whenever an operand is NaN; the two zeros are equal.\<close>

fun fle :: "double \<Rightarrow> double \<Rightarrow> bool" where
  "fle NaN b = False"
| "fle (Infty s) NaN = False"
| "fle (Infty s) (Infty t) = (s \<or> \<not> t)"
| "fle (Infty s) (Fin t n) = s"
| "fle (Fin s m) NaN = False"
| "fle (Fin s m) (Infty t) = (\<not> t)"
| "fle (Fin s m) (Fin t n) = (val (Fin s m) \<le> val (Fin t n))"

fun feq :: "double \<Rightarrow> double \<Rightarrow> bool" where
  "feq (Infty s) (Infty t) = (s = t)"
| "feq (Fin s m) (Fin t n) = (val (Fin s m) = val (Fin t n))"
| "feq a b = False"

text \<open>
  The values of the type that the hardware has: a finite one has a magnitude below
  \<open>2^1024\<close> that rounding leaves as it is. A real number is exactly representable when its
  magnitude is such a magnitude.
\<close>

fun is_double :: "double \<Rightarrow> bool" where
  "is_double NaN = True"
| "is_double (Infty s) = True"
| "is_double (Fin s m) = (0 \<le> m \<and> m < 2 ^ 1024 \<and> round_mag m = m)"

fun is_finite :: "double \<Rightarrow> bool" where
  "is_finite (Fin s m) = True"
| "is_finite a = False"

definition exact :: "real \<Rightarrow> bool" where
  "exact v = (round_mag \<bar>v\<bar> = \<bar>v\<bar> \<and> \<bar>v\<bar> < 2 ^ 1024)"

subsection \<open>Numerical comparison\<close>

text \<open>\<open>return std::abs( a - b ) <= tol;\<close> at \<open>T = int\<close> and at \<open>T = double\<close>.\<close>

definition IsNumbersEqual_int :: "int \<Rightarrow> int \<Rightarrow> int \<Rightarrow> bool" where
  "IsNumbersEqual_int a b tol = (int_abs (int_sub a b) \<le> tol)"

definition IsNumbersEqual_double :: "double \<Rightarrow> double \<Rightarrow> double \<Rightarrow> bool" where
  "IsNumbersEqual_double a b tol = fle (fabs (fsub a b)) tol"

subsection \<open>Linear range mapping\<close>

text \<open>
  \<open>return outputMin + (x - inputMin) * (outputMax - outputMin) / (inputMax - inputMin);\<close>
  at \<open>T = int\<close>, where the division can trap, and at \<open>T = double\<close>, where it cannot.
\<close>

definition mapToRange_int :: "int \<Rightarrow> int \<Rightarrow> int \<Rightarrow> int \<Rightarrow> int \<Rightarrow> error + int" where
  "mapToRange_int x inputMin inputMax outputMin outputMax =
     (case int_div (int_mul (int_sub x inputMin) (int_sub outputMax outputMin))
             (int_sub inputMax inputMin) of
        Inl e \<Rightarrow> Inl e
      | Inr q \<Rightarrow> Inr (int_add outputMin q))"

definition mapToRange_double :: "double \<Rightarrow> double \<Rightarrow> double \<Rightarrow> double \<Rightarrow> double \<Rightarrow> double" where
  "mapToRange_double x inputMin inputMax outputMin outputMax =
     fadd outputMin
       (fdiv (fmul (fsub x inputMin) (fsub outputMax outputMin)) (fsub inputMax inputMin))"

subsection \<open>Data type conversion: strings to numbers\<close>

text \<open>
  \<open>StringToNumber< T >\<close> hands the string to \<open>std::stod\<close> (or \<open>std::stof\<close>), which is
  not part of the header. \<open>stod\<close> below is a model of the library function on decimal
  literals: leading white space, an optional sign, digits with an optional fraction, an
  optional exponent; anything after the number is ignored, and a string with no number
  raises \<open>std::invalid_argument\<close>. The value is the real number the literal denotes.
  Hexadecimal literals, the spellings of infinity and NaN, rounding to the machine format
  and range errors are not modelled.
\<close>

definition isspace :: "char \<Rightarrow> bool" where
  "isspace c = (c \<in> set [CHR '' '', CHR 0x09, CHR 0x0A, CHR 0x0B, CHR 0x0C, CHR 0x0D])"

definition isdigit :: "char \<Rightarrow> bool" where
  "isdigit c = (48 \<le> (of_char c :: nat) \<and> (of_char c :: nat) \<le> 57)"

definition digit_value :: "char \<Rightarrow> nat" where
  "digit_value c = of_char c - 48"

definition decimal_value :: "string \<Rightarrow> nat" where
  "decimal_value ds = foldl (\<lambda>acc c. 10 * acc + digit_value c) 0 ds"

definition read_sign :: "string \<Rightarrow> bool \<times> string" where
  "read_sign s =
     (case s of
        [] \<Rightarrow> (False, s)
      | c # r \<Rightarrow>
          if c = CHR ''-'' then (True, r)
          else if c = CHR ''+'' then (False, r)
          else (False, s))"

definition read_fraction :: "string \<Rightarrow> string \<times> string" where
  "read_fraction s =
     (case s of
        [] \<Rightarrow> ([], s)
      | c # r \<Rightarrow>
          if c = CHR ''.'' then (takeWhile isdigit r, dropWhile isdigit r)
          else ([], s))"

definition read_exponent :: "string \<Rightarrow> int" where
  "read_exponent s =
     (case s of
        [] \<Rightarrow> 0
      | c # r \<Rightarrow>
          if c = CHR ''e'' \<or> c = CHR ''E'' then
            (let (neg, r') = read_sign r; ds = takeWhile isdigit r'
             in if ds = [] then 0
                else if neg then - int (decimal_value ds) else int (decimal_value ds))
          else 0)"

definition scale10 :: "real \<Rightarrow> int \<Rightarrow> real" where
  "scale10 x e = (if 0 \<le> e then x * 10 ^ nat e else x / 10 ^ nat (- e))"

definition stod :: "string \<Rightarrow> error + real" where
  "stod str =
     (let (neg, s1) = read_sign (dropWhile isspace str);
          ip = takeWhile isdigit s1;
          (fp, s3) = read_fraction (dropWhile isdigit s1);
          mant = real (decimal_value (ip @ fp)) / 10 ^ length fp;
          v = scale10 mant (read_exponent s3)
      in if ip = [] \<and> fp = [] then Inl InvalidArgument
         else Inr (if neg then - v else v))"

definition StringToNumber :: "string \<Rightarrow> error + real" where
  "StringToNumber str = stod str"

subsection \<open>Data type conversion: numbers to strings\<close>

text \<open>
  \<open>NumberToString\<close> is \<open>sprintf( buffer, "%g", number )\<close>. The conversion \<open>%g\<close> of the
  C library, with its default precision of six, is modelled from the C standard: the
  value is rounded to six significant decimal digits (correctly, a tie going to the even
  digit), which fixes its decimal exponent \<open>X\<close>; the style is \<open>e\<close> when \<open>X < -4\<close> or
  \<open>X \<ge> 6\<close> and \<open>f\<close> otherwise; trailing zeros of the fraction are removed, and the
  decimal point with them when no digit is left; the exponent has at least two digits.
  The decade of a positive real \<open>v\<close> is \<open>\<lfloor>log\<^sub>1\<^sub>0 v\<rfloor>\<close>, found like the binade.
\<close>

definition pow10 :: "int \<Rightarrow> real" where
  "pow10 e = (if 0 \<le> e then 10 ^ nat e else 1 / 10 ^ nat (- e))"

fun tenths :: "nat \<Rightarrow> real \<Rightarrow> nat" where
  "tenths 0 v = 0"
| "tenths (Suc k) v = (if v < 10 then 0 else Suc (tenths k (v / 10)))"

fun tens :: "nat \<Rightarrow> real \<Rightarrow> nat" where
  "tens 0 v = 0"
| "tens (Suc k) v = (if 1 \<le> v then 0 else Suc (tens k (10 * v)))"

definition decade :: "real \<Rightarrow> int" where
  "decade v = (if 1 \<le> v then int (tenths 308 v) else - int (tens 324 v))"

text \<open>The six significant digits, as an integer in \<open>[100000, 999999]\<close>, and the exponent \<open>X\<close>.\<close>

definition significand6 :: "real \<Rightarrow> int \<times> int" where
  "significand6 v =
     (let X = decade v; n = round_half_even (v / pow10 (X - 5))
      in if n = 1000000 then (100000, X + 1) else (n, X))"

definition digit_char :: "nat \<Rightarrow> char" where
  "digit_char d = char_of (48 + d)"

fun digits :: "nat \<Rightarrow> nat \<Rightarrow> string" where
  "digits 0 n = []"
| "digits (Suc k) n = digits k (n div 10) @ [digit_char (n mod 10)]"

definition strip_zeros :: "string \<Rightarrow> string" where
  "strip_zeros ds = rev (dropWhile (\<lambda>c. c = CHR ''0'') (rev ds))"

definition fraction :: "string \<Rightarrow> string" where
  "fraction ds = (let f = strip_zeros ds in if f = [] then [] else CHR ''.'' # f)"

definition exponent_digits :: "nat \<Rightarrow> string" where
  "exponent_digits e = (if e < 100 then digits 2 e else digits 3 e)"

definition format_e :: "int \<Rightarrow> int \<Rightarrow> string" where
  "format_e n X =
     (let ds = digits 6 (nat n)
      in take 1 ds @ fraction (drop 1 ds) @ ''e'' @ (if X < 0 then ''-'' else ''+'')
           @ exponent_digits (nat \<bar>X\<bar>))"

definition format_f :: "int \<Rightarrow> int \<Rightarrow> string" where
  "format_f n X =
     (let ds = digits 6 (nat n)
      in if 0 \<le> X then take (nat X + 1) ds @ fraction (drop (nat X + 1) ds)
         else ''0'' @ fraction (replicate (nat (- X - 1)) CHR ''0'' @ ds))"

definition format_g :: "real \<Rightarrow> string" where
  "format_g v =
     (if v = 0 then ''0''
      else
        (let (n, X) = significand6 v
         in if X < - 4 \<or> 6 \<le> X then format_e n X else format_f n X))"

text \<open>
  The longest output, a sign, seven characters of digits and a five-character exponent,
  is well within the 100 characters of the buffer. (A NaN has no sign in this model.)
\<close>

definition NumberToString :: "double \<Rightarrow> string" where
  "NumberToString number =
     (case number of
        NaN \<Rightarrow> ''nan''
      | Infty s \<Rightarrow> (if s then ''-inf'' else ''inf'')
      | Fin s m \<Rightarrow> (if s then ''-'' else []) @ format_g m)"

text \<open>
  \<open>StringToNumber< double >\<close> is \<open>std::stod\<close>. On top of the decimal value read by
  \<open>stod\<close> above, the result is a double: the spellings of infinity and NaN are accepted,
  the decimal value is rounded to the nearest double and keeps the sign of the literal,
  and a range error of \<open>strtod\<close> becomes \<open>std::out_of_range\<close>: on overflow, and on an
  underflow that loses precision (the C standard leaves the second to the implementation;
  this is the behaviour of the GNU C library). Hexadecimal literals are not modelled.
\<close>

definition to_lower :: "char \<Rightarrow> char" where
  "to_lower c =
     (if 65 \<le> (of_char c :: nat) \<and> (of_char c :: nat) \<le> 90 then char_of (of_char c + 32 :: nat)
      else c)"

definition StringToNumber_double :: "string \<Rightarrow> error + double" where
  "StringToNumber_double str =
     (let (neg, s1) = read_sign (dropWhile isspace str);
          w = map to_lower (take 3 s1)
      in if w = ''inf'' then Inr (Infty neg)
         else if w = ''nan'' then Inr NaN
         else
           (case stod str of
              Inl e \<Rightarrow> Inl e
            | Inr v \<Rightarrow>
                (let d = round_double neg \<bar>v\<bar>
                 in if \<not> is_finite d then Inl OutOfRange
                    else if \<bar>v\<bar> < pow2 (- 1022) \<and> round_mag \<bar>v\<bar> \<noteq> \<bar>v\<bar> then Inl OutOfRange
                    else Inr d)))"

subsection \<open>Data type conversion: string to matrix\<close>

text \<open>
  \<open>str.at( pos )\<close> throws \<open>std::out_of_range\<close> when \<open>pos\<close> is not below the size;
  \<open>str.substr( pos, n )\<close> throws it when \<open>pos\<close> exceeds the size.
\<close>

definition str_at :: "string \<Rightarrow> nat \<Rightarrow> error + char" where
  "str_at str pos = (if pos < length str then Inr (str ! pos) else Inl OutOfRange)"

definition substr :: "string \<Rightarrow> nat \<Rightarrow> nat \<Rightarrow> error + string" where
  "substr str pos n = (if length str < pos then Inl OutOfRange else Inr (take n (drop pos str)))"

text \<open>
  The three loops of the form \<open>while ( P( str.at( pos ) ) ) pos++;\<close>. The loop ends with
  the position of the first character that fails \<open>P\<close>, or with the exception of \<open>at\<close>
  when the string ends first.
\<close>

function seek :: "(char \<Rightarrow> bool) \<Rightarrow> string \<Rightarrow> nat \<Rightarrow> error + nat" where
  "seek P str pos =
     (case str_at str pos of
        Inl e \<Rightarrow> Inl e
      | Inr c \<Rightarrow> if P c then seek P str (Suc pos) else Inr pos)"
  by pat_completeness auto
termination
  by (relation "measure (\<lambda>(P, str, pos). length str - pos)")
    (auto simp: str_at_def split: if_splits)

declare seek.simps [simp del]

definition seek_past_whitespace :: "string \<Rightarrow> nat \<Rightarrow> error + nat" where
  "seek_past_whitespace str pos = seek (\<lambda>c. c = CHR '' '') str pos"

definition seek_number_end :: "string \<Rightarrow> nat \<Rightarrow> error + nat" where
  "seek_number_end str pos = seek (\<lambda>c. c \<noteq> CHR '','' \<and> c \<noteq> CHR '']'') str pos"

text \<open>
  A matrix is a map from (row, column) to the coefficient; \<open>None\<close> is a coefficient that
  has not been assigned (the matrix \<open>m\<close> is declared without initialisation).
\<close>

type_synonym 'a matrix = "nat \<times> nat \<Rightarrow> 'a option"

text \<open>
  The body of the inner loop, given the number conversion: skip spaces, find the end of
  the number, convert the substring, step over the terminating character.
\<close>

definition read_entry :: "(string \<Rightarrow> error + 'a) \<Rightarrow> string \<Rightarrow> nat \<Rightarrow> error + ('a \<times> nat)" where
  "read_entry conv str pos =
     (case seek_past_whitespace str pos of
        Inl e \<Rightarrow> Inl e
      | Inr start \<Rightarrow>
          (case seek_number_end str start of
             Inl e \<Rightarrow> Inl e
           | Inr pos' \<Rightarrow>
               (case substr str start (pos' - start) of
                  Inl e \<Rightarrow> Inl e
                | Inr s \<Rightarrow>
                    (case conv s of
                       Inl e \<Rightarrow> Inl e
                     | Inr v \<Rightarrow> Inr (v, Suc pos')))))"

text \<open>\<open>for ( int j = 0; j < Cols; j++ )\<close>, with the assignment \<open>m( i, j ) = ...\<close>.\<close>

function cols_loop ::
  "(string \<Rightarrow> error + 'a) \<Rightarrow> string \<Rightarrow> nat \<Rightarrow> nat \<Rightarrow> nat \<Rightarrow> 'a matrix \<times> nat \<Rightarrow> error + ('a matrix \<times> nat)" where
  "cols_loop conv str Cols i j (m, pos) =
     (if j < Cols then
        (case read_entry conv str pos of
           Inl e \<Rightarrow> Inl e
         | Inr (v, pos') \<Rightarrow> cols_loop conv str Cols i (Suc j) (m((i, j) \<mapsto> v), pos'))
      else Inr (m, pos))"
  by pat_completeness auto
termination
  by (relation "measure (\<lambda>(conv, str, Cols, i, j, s). Cols - j)") auto

declare cols_loop.simps [simp del]

text \<open>\<open>for ( int i = 0; i < Rows; i++ )\<close>\<close>

function rows_loop ::
  "(string \<Rightarrow> error + 'a) \<Rightarrow> string \<Rightarrow> nat \<Rightarrow> nat \<Rightarrow> nat \<Rightarrow> 'a matrix \<times> nat \<Rightarrow> error + ('a matrix \<times> nat)" where
  "rows_loop conv str Rows Cols i (m, pos) =
     (if i < Rows then
        (case cols_loop conv str Cols i 0 (m, pos) of
           Inl e \<Rightarrow> Inl e
         | Inr s \<Rightarrow> rows_loop conv str Rows Cols (Suc i) s)
      else Inr (m, pos))"
  by pat_completeness auto
termination
  by (relation "measure (\<lambda>(conv, str, Rows, Cols, i, s). Rows - i)") auto

declare rows_loop.simps [simp del]

text \<open>
  \<open>StringToEigen< T, Rows, Cols >\<close>. The conversion of one number is a parameter, so that
  the general properties hold whatever the library's number parser does;
  \<open>StringToEigen StringToNumber\<close> is the function of the header.
\<close>

definition StringToEigen :: "(string \<Rightarrow> error + 'a) \<Rightarrow> nat \<Rightarrow> nat \<Rightarrow> string \<Rightarrow> error + 'a matrix" where
  "StringToEigen conv Rows Cols str =
     (case seek_past_whitespace str 0 of
        Inl e \<Rightarrow> Inl e
      | Inr pos \<Rightarrow>
          (case str_at str pos of
             Inl e \<Rightarrow> Inl e
           | Inr c \<Rightarrow>
               if c = CHR ''['' then
                 (case rows_loop conv str Rows Cols 0 (Map.empty, Suc pos) of
                    Inl e \<Rightarrow> Inl e
                  | Inr (m, pos') \<Rightarrow> Inr m)
               else Inl (RuntimeError ''StringToEigen didn't find open bracket'')))"

subsection \<open>Printf-style formatting\<close>

text \<open>
  \<open>snprintf( buf, n, format, args... )\<close> belongs to the C library. Its formatting is the
  parameter \<open>render\<close>: \<open>render format args\<close> is the complete output, or \<open>None\<close> when
  the conversion fails. The call returns the length of the complete output, or a negative
  value on failure or when that length exceeds \<open>INT_MAX\<close>. With \<open>n > 0\<close> it stores at
  most \<open>n - 1\<close> characters of the output and the null character after them; a buffer
  shorter than what is stored is overrun.
\<close>

definition snprintf ::
  "(string \<Rightarrow> 'args \<Rightarrow> string option) \<Rightarrow> string \<Rightarrow> nat \<Rightarrow> string \<Rightarrow> 'args \<Rightarrow> error + (string \<times> int)" where
  "snprintf render buf n format args =
     (case render format args of
        None \<Rightarrow> Inr (buf, - 1)
      | Some s \<Rightarrow>
          if INT_MAX < int (length s) then Inr (buf, - 1)
          else if n = 0 then Inr (buf, int (length s))
          else
            (let k = min (length s) (n - 1)
             in if length buf < Suc k then Inl BufferOverflow
                else Inr (take k s @ [CHR 0x00] @ drop (Suc k) buf, int (length s))))"

text \<open>
  \<open>new char[ size ]\<close> yields \<open>size\<close> characters of unspecified content, given by the
  parameter \<open>garbage\<close>.
\<close>

definition new_char_array :: "(nat \<Rightarrow> char) \<Rightarrow> nat \<Rightarrow> string" where
  "new_char_array garbage n = map garbage [0..<n]"

text \<open>
  \<open>StringFormat\<close> up to the second \<open>snprintf\<close>: the size of the buffer and the buffer
  after formatting. \<open>int size = snprintf( ... ) + 1\<close> is an \<open>int\<close> addition and wraps.
\<close>

definition StringFormat_buffer ::
  "(string \<Rightarrow> 'args \<Rightarrow> string option) \<Rightarrow> (nat \<Rightarrow> char) \<Rightarrow> string \<Rightarrow> 'args \<Rightarrow> error + (int \<times> string)" where
  "StringFormat_buffer render garbage format args =
     (case snprintf render [] 0 format args of
        Inl e \<Rightarrow> Inl e
      | Inr (nothing, r) \<Rightarrow>
          (let siz = wrap32 (r + 1)
           in if siz \<le> 0 then Inl (RuntimeError ''Error during formatting.'')
              else
                (let buf = new_char_array garbage (nat siz)
                 in case snprintf render buf (nat siz) format args of
                      Inl e \<Rightarrow> Inl e
                    | Inr (buf', r') \<Rightarrow> Inr (siz, buf'))))"

text \<open>\<open>return std::string( buf.get(), buf.get() + size - 1 );\<close>\<close>

definition StringFormat ::
  "(string \<Rightarrow> 'args \<Rightarrow> string option) \<Rightarrow> (nat \<Rightarrow> char) \<Rightarrow> string \<Rightarrow> 'args \<Rightarrow> error + string" where
  "StringFormat render garbage format args =
     (case StringFormat_buffer render garbage format args of
        Inl e \<Rightarrow> Inl e
      | Inr (siz, buf) \<Rightarrow> Inr (take (nat siz - 1) buf))"

text \<open>What the trial pass \<open>snprintf( nullptr, 0, ... )\<close> reports.\<close>

definition trial_pass :: "(string \<Rightarrow> 'args \<Rightarrow> string option) \<Rightarrow> string \<Rightarrow> 'args \<Rightarrow> int" where
  "trial_pass render format args =
     (case snprintf render [] 0 format args of Inl e \<Rightarrow> - 1 | Inr (nothing, r) \<Rightarrow> r)"

subsection \<open>The matrix grammar, read from a flat list\<close>

text \<open>
  The reading of the specification: after the opening bracket, \<open>Rows * Cols\<close> numbers
  follow one another, each possibly preceded by spaces and ended by a comma or a closing
  bracket, and the \<open>k\<close>-th number is the coefficient of row \<open>k div Cols\<close> and column
  \<open>k mod Cols\<close>. These definitions work on the rest of the input instead of positions.
\<close>

definition number_char :: "char \<Rightarrow> bool" where
  "number_char c = (c \<noteq> CHR '','' \<and> c \<noteq> CHR '']'')"

definition next_field :: "string \<Rightarrow> (string \<times> string) option" where
  "next_field rest =
     (let r1 = dropWhile (\<lambda>c. c = CHR '' '') rest;
          r2 = dropWhile number_char r1
      in if r2 = [] then None else Some (takeWhile number_char r1, tl r2))"

fun flat_numbers :: "(string \<Rightarrow> error + 'a) \<Rightarrow> nat \<Rightarrow> string \<Rightarrow> error + ('a list \<times> string)" where
  "flat_numbers conv 0 rest = Inr ([], rest)"
| "flat_numbers conv (Suc n) rest =
     (case next_field rest of
        None \<Rightarrow> Inl OutOfRange
      | Some (f, rest') \<Rightarrow>
          (case conv f of
             Inl e \<Rightarrow> Inl e
           | Inr v \<Rightarrow>
               (case flat_numbers conv n rest' of
                  Inl e \<Rightarrow> Inl e
                | Inr (vs, rest'') \<Rightarrow> Inr (v # vs, rest''))))"

definition row_major :: "nat \<Rightarrow> nat \<Rightarrow> 'a list \<Rightarrow> 'a matrix" where
  "row_major Rows Cols vs = (\<lambda>(i, j). if i < Rows \<and> j < Cols then Some (vs ! (i * Cols + j)) else None)"

definition StringToEigen_flat :: "(string \<Rightarrow> error + 'a) \<Rightarrow> nat \<Rightarrow> nat \<Rightarrow> string \<Rightarrow> error + 'a matrix" where
  "StringToEigen_flat conv Rows Cols str =
     (case dropWhile (\<lambda>c. c = CHR '' '') str of
        [] \<Rightarrow> Inl OutOfRange
      | c # rest \<Rightarrow>
          if c = CHR ''['' then
            (case flat_numbers conv (Rows * Cols) rest of
               Inl e \<Rightarrow> Inl e
             | Inr (vs, rest') \<Rightarrow> Inr (row_major Rows Cols vs))
          else Inl (RuntimeError ''StringToEigen didn't find open bracket''))"

fun comma_separated :: "string list \<Rightarrow> string" where
  "comma_separated [] = []"
| "comma_separated [f] = f"
| "comma_separated (f # g # fs) = f @ '','' @ comma_separated (g # fs)"

definition plain_field :: "string \<Rightarrow> bool" where
  "plain_field f = (CHR '','' \<notin> set f \<and> CHR '']'' \<notin> set f)"

text \<open>The input with every closing bracket replaced by a comma.\<close>

definition comma_for_bracket :: "char \<Rightarrow> char" where
  "comma_for_bracket c = (if c = CHR '']'' then CHR '','' else c)"

text \<open>The coefficients written by a part of the loops, used to state their invariants.\<close>

definition fill_row :: "nat \<Rightarrow> nat \<Rightarrow> nat \<Rightarrow> 'a list \<Rightarrow> 'a matrix \<Rightarrow> 'a matrix" where
  "fill_row i j Cols vs m =
     (\<lambda>(a, b). if a = i \<and> j \<le> b \<and> b < Cols then Some (vs ! (b - j)) else m (a, b))"

definition fill_rows :: "nat \<Rightarrow> nat \<Rightarrow> nat \<Rightarrow> 'a list \<Rightarrow> 'a matrix \<Rightarrow> 'a matrix" where
  "fill_rows i Rows Cols vs m =
     (\<lambda>(a, b). if i \<le> a \<and> a < Rows \<and> b < Cols then Some (vs ! ((a - i) * Cols + b)) else m (a, b))"

section \<open>Properties\<close>

subsection \<open>Clamping\<close>



subsection \<open>Deadband\<close>

text \<open>
  Claim C3. The two-argument \<open>ApplyDeadband x range\<close> is \<open>0\<close> when \<open>|x| < range\<close> and
  \<open>x\<close> when \<open>|x| \<ge> range\<close>; at \<open>x = range\<close> and at \<open>x = - range\<close> it is \<open>x\<close>.
\<close>

theorem ApplyDeadband_zeroes_inside:
  fixes x rng :: "'a::linordered_idom"
  shows "(\<bar>x\<bar> < rng \<longrightarrow> ApplyDeadband x rng = 0)
       \<and> (\<bar>x\<bar> \<ge> rng \<longrightarrow> ApplyDeadband x rng = x)
       \<and> ApplyDeadband rng rng = rng
       \<and> ApplyDeadband (- rng) rng = - rng"
  by (auto simp: ApplyDeadband_def abs_if)

theorem ApplyDeadband_zeroes_inside_witness:
  "\<bar>1::int\<bar> < 3 \<and> ApplyDeadband (1::int) 3 = 0
   \<and> \<bar>- 7::int\<bar> \<ge> 3 \<and> ApplyDeadband (- 7::int) 3 = - 7
   \<and> ApplyDeadband (3::int) 3 = 3 \<and> ApplyDeadband (- 3::int) 3 = - 3"
  using ApplyDeadband_zeroes_inside [of "1::int" 3] ApplyDeadband_zeroes_inside [of "- 7::int" 3]
    ApplyDeadband_zeroes_inside [of "3::int" 3]
  by (simp add: ApplyDeadband_def)



subsection \<open>The matrix parser reads the flat list\<close>

lemma seek_scan:
  "seek P str pos =
     (if dropWhile P (drop pos str) = [] then Inl OutOfRange
      else Inr (pos + length (takeWhile P (drop pos str))))"
proof (induction P str pos rule: seek.induct)
  case (1 P str pos)
  show ?case
  proof (cases "pos < length str")
    case False
    then show ?thesis
      by (subst seek.simps) (simp add: str_at_def)
  next
    case True
    then have d: "drop pos str = str ! pos # drop (Suc pos) str"
      by (simp add: Cons_nth_drop_Suc)
    show ?thesis
    proof (cases "P (str ! pos)")
      case False
      with True d show ?thesis
        by (subst seek.simps) (simp add: str_at_def)
    next
      case P: True
      have "str_at str pos = Inr (str ! pos)"
        using True by (simp add: str_at_def)
      from "1.IH" [OF this P] True d P show ?thesis
        by (subst seek.simps) (simp add: str_at_def)
    qed
  qed
qed

lemma drop_suffix:
  assumes "drop pos str = pre @ rest"
  shows "drop (length str - length rest) str = rest"
proof -
  have "str = take pos str @ pre @ rest"
    using assms by (metis append_take_drop_id)
  then have "str = (take pos str @ pre) @ rest" by simp
  then show ?thesis
    by (metis append_eq_conv_conj length_append add_diff_cancel_right')
qed

lemma next_field_suffix:
  assumes "next_field rest = Some (f, rest')"
  shows "\<exists>pre. rest = pre @ rest' \<and> pre \<noteq> []"
proof -
  define r1 where "r1 = dropWhile (\<lambda>c. c = CHR '' '') rest"
  define r2 where "r2 = dropWhile number_char r1"
  from assms have ne: "r2 \<noteq> []" and r': "rest' = tl r2"
    by (auto simp: next_field_def Let_def r1_def r2_def split: if_splits)
  have "rest = takeWhile (\<lambda>c. c = CHR '' '') rest @ r1"
    by (simp add: r1_def)
  also have "r1 = takeWhile number_char r1 @ r2"
    by (simp add: r2_def)
  also have "r2 = [hd r2] @ rest'"
    using ne r' by simp
  finally have "rest = (takeWhile (\<lambda>c. c = CHR '' '') rest @ takeWhile number_char r1 @ [hd r2]) @ rest'"
    by simp
  then show ?thesis by blast
qed

lemma read_entry_field:
  "read_entry conv str pos =
     (case next_field (drop pos str) of
        None \<Rightarrow> Inl OutOfRange
      | Some (f, rest') \<Rightarrow>
          (case conv f of
             Inl e \<Rightarrow> Inl e
           | Inr v \<Rightarrow> Inr (v, length str - length rest')))"
proof -
  define rest where "rest = drop pos str"
  define sp where "sp = takeWhile (\<lambda>c. c = CHR '' '') rest"
  define r1 where "r1 = dropWhile (\<lambda>c. c = CHR '' '') rest"
  define tw where "tw = takeWhile number_char r1"
  define r2 where "r2 = dropWhile number_char r1"
  have nc: "(\<lambda>c. c \<noteq> CHR '','' \<and> c \<noteq> CHR '']'') = number_char"
    by (simp add: number_char_def fun_eq_iff)
  have r1_drop: "drop (pos + length sp) str = r1"
    unfolding r1_def sp_def rest_def
    by (metis add.commute drop_drop dropWhile_eq_drop)
  have r2_drop: "r2 = drop (length tw) r1"
    unfolding r2_def tw_def by (rule dropWhile_eq_drop)
  have tw_take: "tw = take (length tw) r1"
    unfolding tw_def by (rule takeWhile_eq_take)
  have sw: "seek_past_whitespace str pos = (if r1 = [] then Inl OutOfRange else Inr (pos + length sp))"
    unfolding seek_past_whitespace_def seek_scan r1_def sp_def rest_def ..
  have se: "seek_number_end str (pos + length sp)
              = (if r2 = [] then Inl OutOfRange else Inr (pos + length sp + length tw))"
    unfolding seek_number_end_def seek_scan nc r1_drop r2_def tw_def ..
  have nf: "next_field (drop pos str) = (if r2 = [] then None else Some (tw, tl r2))"
    unfolding next_field_def Let_def r2_def tw_def r1_def rest_def ..
  show ?thesis
  proof (cases "r2 = []")
    case True
    then show ?thesis
      by (cases "r1 = []") (simp_all add: read_entry_def sw se nf)
  next
    case False
    then have r1_ne: "r1 \<noteq> []"
      by (auto simp: r2_def)
    have len_r1: "length r1 = length str - (pos + length sp)"
      using r1_drop by (metis length_drop)
    have len_r2: "length r2 = length r1 - length tw"
      using r2_drop by simp
    have pos_ok: "pos + length sp + length tw < length str"
      using False len_r1 len_r2 by (cases r2) auto
    have len_tl: "length str - length (tl r2) = Suc (pos + length sp + length tw)"
      using False len_r1 len_r2 pos_ok by (cases r2) auto
    have sub: "substr str (pos + length sp) (length tw) = Inr tw"
      using pos_ok tw_take by (simp add: substr_def r1_drop)
    show ?thesis
      using False r1_ne len_tl
      by (simp add: read_entry_def sw se nf sub split: sum.splits)
  qed
qed

lemma flat_numbers_length:
  "flat_numbers conv n rest = Inr (vs, rest') \<Longrightarrow> length vs = n"
  by (induction n arbitrary: rest vs) (auto split: option.splits sum.splits)

lemma flat_numbers_suffix:
  "flat_numbers conv n rest = Inr (vs, rest') \<Longrightarrow> \<exists>pre. rest = pre @ rest'"
proof (induction n arbitrary: rest vs)
  case 0
  then show ?case by simp
next
  case (Suc n)
  from Suc.prems obtain f r v vs' where nf: "next_field rest = Some (f, r)"
    and fl: "flat_numbers conv n r = Inr (vs', rest')"
    by (auto split: option.splits sum.splits)
  from next_field_suffix [OF nf] obtain p1 where "rest = p1 @ r" by blast
  moreover from Suc.IH [OF fl] obtain p2 where "r = p2 @ rest'" by blast
  ultimately have "rest = (p1 @ p2) @ rest'" by simp
  then show ?case by blast
qed

lemma flat_numbers_add:
  "flat_numbers conv (n1 + n2) rest =
     (case flat_numbers conv n1 rest of
        Inl e \<Rightarrow> Inl e
      | Inr (vs1, r1) \<Rightarrow>
          (case flat_numbers conv n2 r1 of
             Inl e \<Rightarrow> Inl e
           | Inr (vs2, r2) \<Rightarrow> Inr (vs1 @ vs2, r2)))"
  by (induction n1 arbitrary: rest) (auto split: option.splits sum.splits)

lemma cols_loop_flat:
  assumes "pos \<le> length str"
  shows "cols_loop conv str Cols i j (m, pos) =
     (case flat_numbers conv (Cols - j) (drop pos str) of
        Inl e \<Rightarrow> Inl e
      | Inr (vs, rest') \<Rightarrow> Inr (fill_row i j Cols vs m, length str - length rest'))"
  using assms
proof (induction "Cols - j" arbitrary: j m pos)
  case 0
  then have "fill_row i j Cols [] m = m"
    by (auto simp: fill_row_def fun_eq_iff)
  with 0 show ?case
    by (subst cols_loop.simps) simp
next
  case (Suc n)
  then have lt: "j < Cols" and n: "n = Cols - Suc j" by simp_all
  have unfold: "Cols - j = Suc (Cols - Suc j)"
    using lt by simp
  show ?case
  proof (cases "next_field (drop pos str)")
    case None
    with lt show ?thesis
      by (subst cols_loop.simps) (simp add: read_entry_field unfold)
  next
    case (Some fr)
    obtain f rest' where fr: "fr = (f, rest')" by (cases fr)
    from next_field_suffix Some fr obtain pre where "drop pos str = pre @ rest'"
      by blast
    then have d: "drop (length str - length rest') str = rest'"
      by (rule drop_suffix)
    show ?thesis
    proof (cases "conv f")
      case (Inl e)
      with lt Some fr show ?thesis
        by (subst cols_loop.simps) (simp add: read_entry_field unfold)
    next
      case (Inr v)
      have fill: "fill_row i (Suc j) Cols vs (m((i, j) \<mapsto> v)) = fill_row i j Cols (v # vs) m" for vs
        using lt by (auto simp: fill_row_def fun_eq_iff nth_Cons' Suc_diff_le)
      have IH: "cols_loop conv str Cols i (Suc j) (m((i, j) \<mapsto> v), length str - length rest') =
         (case flat_numbers conv (Cols - Suc j) rest' of
            Inl e \<Rightarrow> Inl e
          | Inr (vs, r) \<Rightarrow> Inr (fill_row i (Suc j) Cols vs (m((i, j) \<mapsto> v)), length str - length r))"
        using Suc.hyps(1) [OF n, of "length str - length rest'" "m((i, j) \<mapsto> v)"] d by simp
      show ?thesis
        using lt Some fr Inr
        by (subst cols_loop.simps)
          (simp add: read_entry_field unfold IH fill split: sum.splits)
    qed
  qed
qed

lemma rows_loop_flat:
  assumes "pos \<le> length str"
  shows "rows_loop conv str Rows Cols i (m, pos) =
     (case flat_numbers conv ((Rows - i) * Cols) (drop pos str) of
        Inl e \<Rightarrow> Inl e
      | Inr (vs, rest') \<Rightarrow> Inr (fill_rows i Rows Cols vs m, length str - length rest'))"
  using assms
proof (induction "Rows - i" arbitrary: i m pos)
  case 0
  then have "fill_rows i Rows Cols [] m = m"
    by (auto simp: fill_rows_def fun_eq_iff)
  with 0 show ?case
    by (subst rows_loop.simps) simp
next
  case (Suc n)
  then have lt: "i < Rows" and n: "n = Rows - Suc i" by simp_all
  have unfold: "(Rows - i) * Cols = Cols + (Rows - Suc i) * Cols"
    using lt by (simp add: Suc_diff_Suc flip: mult_Suc)
  show ?case
  proof (cases "flat_numbers conv Cols (drop pos str)")
    case (Inl e)
    with lt Suc.prems show ?thesis
      by (subst rows_loop.simps) (simp add: cols_loop_flat unfold flat_numbers_add)
  next
    case (Inr r)
    obtain vs1 rest1 where r: "r = (vs1, rest1)" by (cases r)
    have len1: "length vs1 = Cols"
      using Inr r by (auto dest: flat_numbers_length)
    from flat_numbers_suffix Inr r obtain pre where "drop pos str = pre @ rest1"
      by blast
    then have d: "drop (length str - length rest1) str = rest1"
      by (rule drop_suffix)
    have fill: "fill_rows (Suc i) Rows Cols vs (fill_row i 0 Cols vs1 m) = fill_rows i Rows Cols (vs1 @ vs) m" for vs
    proof -
      have "(a - i) * Cols + b - Cols = (a - Suc i) * Cols + b" if "Suc i \<le> a" for a b
      proof -
        from that obtain k where "a = Suc i + k"
          using le_Suc_ex by blast
        then show ?thesis by simp
      qed
      moreover have "\<not> (a - i) * Cols + b < Cols" if "Suc i \<le> a" for a b
      proof -
        from that obtain k where "a = Suc i + k"
          using le_Suc_ex by blast
        then show ?thesis by simp
      qed
      ultimately show ?thesis
        using lt len1
        by (auto simp: fill_rows_def fill_row_def fun_eq_iff nth_append)
    qed
    have IH: "rows_loop conv str Rows Cols (Suc i) (fill_row i 0 Cols vs1 m, length str - length rest1) =
         (case flat_numbers conv ((Rows - Suc i) * Cols) rest1 of
            Inl e \<Rightarrow> Inl e
          | Inr (vs, r) \<Rightarrow> Inr (fill_rows (Suc i) Rows Cols vs (fill_row i 0 Cols vs1 m), length str - length r))"
      using Suc.hyps(1) [OF n, of "length str - length rest1" "fill_row i 0 Cols vs1 m"] d by simp
    show ?thesis
      using lt Suc.prems Inr r
      by (subst rows_loop.simps)
        (simp add: cols_loop_flat unfold flat_numbers_add IH fill split: sum.splits)
  qed
qed

lemma fill_rows_empty: "fill_rows 0 Rows Cols vs Map.empty = row_major Rows Cols vs"
  by (simp add: fill_rows_def row_major_def fun_eq_iff)

lemma StringToEigen_eq_flat:
  "StringToEigen conv Rows Cols str = StringToEigen_flat conv Rows Cols str"
proof (cases "dropWhile (\<lambda>c. c = CHR '' '') str")
  case Nil
  then show ?thesis
    by (simp add: StringToEigen_def StringToEigen_flat_def seek_past_whitespace_def seek_scan
        del: dropWhile_eq_Nil_conv)
next
  case (Cons c rest)
  define k where "k = length (takeWhile (\<lambda>c. c = CHR '' '') str)"
  have dk: "drop k str = c # rest"
    using Cons unfolding k_def by (simp add: dropWhile_eq_drop)
  then have k: "k < length str"
    by (metis drop_all list.distinct(1) not_le)
  have c: "str ! k = c"
    using dk k by (metis hd_drop_conv_nth list.sel(1))
  have rest: "drop (Suc k) str = rest"
    using dk by (metis drop_Suc list.sel(3) tl_drop)
  have sw: "seek_past_whitespace str 0 = Inr k"
    using Cons by (simp add: seek_past_whitespace_def seek_scan k_def)
  show ?thesis
    using k c rest Cons
    by (simp add: StringToEigen_def StringToEigen_flat_def sw str_at_def rows_loop_flat
        fill_rows_empty split: sum.splits)
qed

lemmas parse_simps =
  StringToEigen_def seek_past_whitespace_def seek_number_end_def seek.simps str_at_def
  rows_loop.simps cols_loop.simps read_entry_def substr_def StringToNumber_def
  stod_def read_sign_def isspace_def isdigit_def read_fraction_def read_exponent_def
  decimal_value_def digit_value_def scale10_def

lemma next_field_plain:
  assumes "plain_field f" and "d = CHR '','' \<or> d = CHR '']''"
  shows "next_field (f @ d # rest) = Some (dropWhile (\<lambda>c. c = CHR '' '') f, rest)"
proof -
  define g where "g = dropWhile (\<lambda>c. c = CHR '' '') f"
  have d_sp: "\<not> d = CHR '' ''" and d_nc: "\<not> number_char d"
    using assms(2) by (auto simp: number_char_def)
  have 1: "dropWhile (\<lambda>c. c = CHR '' '') (f @ d # rest) = g @ d # rest"
    unfolding g_def by (rule dropWhile_append3 [of "\<lambda>c. c = CHR '' ''"]) (rule d_sp)
  have "set g \<subseteq> set f"
    unfolding g_def by (auto dest: set_dropWhileD)
  then have all: "\<forall>x\<in>set g. number_char x"
    using assms(1) by (auto simp: plain_field_def number_char_def)
  then have tw: "takeWhile number_char g = g" and dw: "dropWhile number_char g = []"
    by simp_all
  have 2: "takeWhile number_char (g @ d # rest) = g"
    by (simp only: takeWhile_tail [of number_char, OF d_nc] tw)
  have 3: "dropWhile number_char (g @ d # rest) = d # rest"
    by (simp only: dropWhile_append3 [of number_char, OF d_nc] dw append_Nil)
  show ?thesis
    unfolding next_field_def Let_def 1 2 3 by (simp add: g_def)
qed

lemma flat_numbers_comma_separated:
  assumes "fs \<noteq> []"
    and "list_all2 (\<lambda>f v. plain_field f \<and> conv (dropWhile (\<lambda>c. c = CHR '' '') f) = Inr v) fs vs"
  shows "flat_numbers conv (length fs) (comma_separated fs @ CHR '']'' # extra) = Inr (vs, extra)"
  using assms
proof (induction fs arbitrary: vs rule: comma_separated.induct)
  case 1
  then show ?case by simp
next
  case (2 f)
  then obtain v where vs: "vs = [v]" and f: "plain_field f"
    and c: "conv (dropWhile (\<lambda>c. c = CHR '' '') f) = Inr v"
    by (auto simp: list_all2_Cons1)
  show ?case
    by (simp add: vs next_field_plain [OF f] c)
next
  case (3 f g fs)
  then obtain v vs' where vs: "vs = v # vs'" and f: "plain_field f"
    and c: "conv (dropWhile (\<lambda>c. c = CHR '' '') f) = Inr v"
    and rest: "list_all2 (\<lambda>f v. plain_field f \<and> conv (dropWhile (\<lambda>c. c = CHR '' '') f) = Inr v) (g # fs) vs'"
    by (auto simp: list_all2_Cons1)
  have IH: "flat_numbers conv (length (g # fs)) (comma_separated (g # fs) @ CHR '']'' # extra) = Inr (vs', extra)"
    using "3.IH" [OF _ rest] by simp
  have nf: "next_field (f @ CHR '','' # comma_separated (g # fs) @ CHR '']'' # extra)
      = Some (dropWhile (\<lambda>c. c = CHR '' '') f, comma_separated (g # fs) @ CHR '']'' # extra)"
    by (rule next_field_plain [OF f]) simp
  show ?case
    using IH by (simp add: vs nf c)
qed

lemma StringToEigen_comma_separated:
  assumes "length fs = Rows * Cols" and "fs \<noteq> []"
    and "list_all2 (\<lambda>f v. plain_field f \<and> conv (dropWhile (\<lambda>c. c = CHR '' '') f) = Inr v) fs vs"
  shows "StringToEigen conv Rows Cols (replicate k CHR '' '' @ ''['' @ comma_separated fs @ '']'' @ extra)
           = Inr (row_major Rows Cols vs)"
proof -
  have "dropWhile (\<lambda>c. c = CHR '' '') (replicate k CHR '' '' @ ''['' @ comma_separated fs @ '']'' @ extra)
          = ''['' @ comma_separated fs @ '']'' @ extra"
    by (induction k) simp_all
  then show ?thesis
    using flat_numbers_comma_separated [OF assms(2,3), of extra] assms(1)
    by (simp add: StringToEigen_eq_flat StringToEigen_flat_def)
qed

text \<open>
  Claim C4. Parsing \<open>"[1,2,3,4]"\<close> into a 2x2 matrix succeeds with first row \<open>[1, 2]\<close>
  and second row \<open>[3, 4]\<close>. In general, for a bracketed comma-separated list of
  \<open>Rows * Cols\<close> fields whose texts convert to the values \<open>vs\<close>, the parse succeeds and
  the coefficient at row \<open>i\<close> and column \<open>j\<close> is the value of field \<open>i * Cols + j\<close>:
  the fields fill the matrix row by row.
\<close>

theorem StringToEigen_row_major:
  "StringToEigen StringToNumber 2 2 ''[1,2,3,4]''
     = Inr [(0, 0) \<mapsto> 1, (0, 1) \<mapsto> 2, (1, 0) \<mapsto> 3, (1, 1) \<mapsto> 4]
   \<and> (length fs = Rows * Cols \<and> fs \<noteq> []
        \<and> list_all2 (\<lambda>f v. plain_field f \<and> conv (dropWhile (\<lambda>c. c = CHR '' '') f) = Inr v) fs vs
      \<longrightarrow> (\<exists>m. StringToEigen conv Rows Cols (replicate k CHR '' '' @ ''['' @ comma_separated fs @ '']'') = Inr m
              \<and> (\<forall>i j. i < Rows \<and> j < Cols \<longrightarrow> m (i, j) = Some (vs ! (i * Cols + j)))
              \<and> (\<forall>i j. \<not> (i < Rows \<and> j < Cols) \<longrightarrow> m (i, j) = None)))"
proof (rule conjI)
  show "StringToEigen StringToNumber 2 2 ''[1,2,3,4]''
     = Inr [(0, 0) \<mapsto> 1, (0, 1) \<mapsto> 2, (1, 0) \<mapsto> 3, (1, 1) \<mapsto> 4]"
    by (simp add: parse_simps)
next
  show "length fs = Rows * Cols \<and> fs \<noteq> []
        \<and> list_all2 (\<lambda>f v. plain_field f \<and> conv (dropWhile (\<lambda>c. c = CHR '' '') f) = Inr v) fs vs
      \<longrightarrow> (\<exists>m. StringToEigen conv Rows Cols (replicate k CHR '' '' @ ''['' @ comma_separated fs @ '']'') = Inr m
              \<and> (\<forall>i j. i < Rows \<and> j < Cols \<longrightarrow> m (i, j) = Some (vs ! (i * Cols + j)))
              \<and> (\<forall>i j. \<not> (i < Rows \<and> j < Cols) \<longrightarrow> m (i, j) = None))"
    using StringToEigen_comma_separated [of fs Rows Cols conv vs k "[]"]
    by (auto simp: row_major_def)
qed

theorem StringToEigen_row_major_witness:
  "length [''1'', '' 2'', ''3 '', ''4''] = 2 * 2
   \<and> list_all2 (\<lambda>f v. plain_field f \<and> StringToNumber (dropWhile (\<lambda>c. c = CHR '' '') f) = Inr v)
        [''1'', '' 2'', ''3 '', ''4''] [1, 2, 3, 4]
   \<and> (\<exists>m. StringToEigen StringToNumber 2 2 '' [1, 2,3 ,4]'' = Inr m
         \<and> m (0, 0) = Some 1 \<and> m (0, 1) = Some 2 \<and> m (1, 0) = Some 3 \<and> m (1, 1) = Some 4
         \<and> m (2, 0) = None)"
proof -
  have h: "length [''1'', '' 2'', ''3 '', ''4''] = 2 * 2
     \<and> [''1'', '' 2'', ''3 '', ''4''] \<noteq> []
     \<and> list_all2 (\<lambda>f v. plain_field f \<and> StringToNumber (dropWhile (\<lambda>c. c = CHR '' '') f) = Inr v)
        [''1'', '' 2'', ''3 '', ''4''] [1, 2, 3, 4]"
    by (simp add: plain_field_def StringToNumber_def stod_def read_sign_def isspace_def isdigit_def
        read_fraction_def read_exponent_def decimal_value_def digit_value_def scale10_def)
  have s: "replicate 1 CHR '' '' @ ''['' @ comma_separated [''1'', '' 2'', ''3 '', ''4''] @ '']''
      = '' [1, 2,3 ,4]''"
    by simp
  from StringToEigen_row_major [of "[''1'', '' 2'', ''3 '', ''4'']" 2 2 StringToNumber "[1, 2, 3, 4]" 1]
  have "\<exists>m. StringToEigen StringToNumber 2 2 (replicate 1 CHR '' '' @ ''['' @ comma_separated [''1'', '' 2'', ''3 '', ''4''] @ '']'') = Inr m
         \<and> (\<forall>i j. i < 2 \<and> j < 2 \<longrightarrow> m (i, j) = Some ([1, 2, 3, 4] ! (i * 2 + j)))
         \<and> (\<forall>i j. \<not> (i < 2 \<and> j < 2) \<longrightarrow> m (i, j) = None)"
    using h by blast
  then obtain m where m: "StringToEigen StringToNumber 2 2 '' [1, 2,3 ,4]'' = Inr m"
    and e: "\<forall>i j. i < 2 \<and> j < 2 \<longrightarrow> m (i, j) = Some ([1, 2, 3, 4] ! (i * 2 + j))"
    and n: "\<forall>i j. \<not> (i < 2 \<and> j < 2) \<longrightarrow> m (i, j) = None"
    unfolding s by blast
  have "m (0, 0) = Some 1" "m (0, 1) = Some 2" "m (1, 0) = Some 3" "m (1, 1) = Some 4"
    using e [rule_format, of 0 0] e [rule_format, of 0 1] e [rule_format, of 1 0]
      e [rule_format, of 1 1]
    by simp_all
  moreover have "m (2, 0) = None"
    using n [rule_format, of 2 0] by simp
  ultimately show ?thesis
    using h m by blast
qed

subsection \<open>Trailing input and terminators\<close>

lemma next_field_append:
  assumes "next_field rest = Some (f, rest')"
  shows "next_field (rest @ extra) = Some (f, rest' @ extra)"
proof -
  define r1 where "r1 = dropWhile (\<lambda>c. c = CHR '' '') rest"
  define r2 where "r2 = dropWhile number_char r1"
  from assms have ne: "r2 \<noteq> []" and f: "f = takeWhile number_char r1" and r': "rest' = tl r2"
    by (auto simp: next_field_def Let_def r1_def r2_def split: if_splits)
  from ne have "r1 \<noteq> []" by (auto simp: r2_def)
  then obtain x where "x \<in> set rest" "\<not> x = CHR '' ''"
    by (auto simp: r1_def)
  then have 1: "dropWhile (\<lambda>c. c = CHR '' '') (rest @ extra) = r1 @ extra"
    unfolding r1_def by (simp add: dropWhile_append1)
  from ne obtain y where y: "y \<in> set r1" "\<not> number_char y"
    by (auto simp: r2_def)
  then have 2: "dropWhile number_char (r1 @ extra) = r2 @ extra"
    unfolding r2_def by (simp add: dropWhile_append1)
  from y have 3: "takeWhile number_char (r1 @ extra) = takeWhile number_char r1"
    by (simp add: takeWhile_append1)
  show ?thesis
    unfolding next_field_def Let_def 1 2 3 using ne f r' by simp
qed

lemma flat_numbers_append:
  "flat_numbers conv n rest = Inr (vs, rest') \<Longrightarrow>
   flat_numbers conv n (rest @ extra) = Inr (vs, rest' @ extra)"
proof (induction n arbitrary: rest vs)
  case 0
  then show ?case by simp
next
  case (Suc n)
  from Suc.prems obtain f r v vs' where nf: "next_field rest = Some (f, r)"
    and c: "conv f = Inr v" and fl: "flat_numbers conv n r = Inr (vs', rest')" and vs: "vs = v # vs'"
    by (auto split: option.splits sum.splits)
  show ?case
    by (simp add: next_field_append [OF nf] c Suc.IH [OF fl] vs)
qed

lemma StringToEigen_flat_append:
  assumes "StringToEigen_flat conv Rows Cols str = Inr m"
  shows "StringToEigen_flat conv Rows Cols (str @ extra) = Inr m"
proof -
  from assms obtain rest vs rest' where d: "dropWhile (\<lambda>c. c = CHR '' '') str = CHR ''['' # rest"
    and fl: "flat_numbers conv (Rows * Cols) rest = Inr (vs, rest')" and m: "m = row_major Rows Cols vs"
    by (auto simp: StringToEigen_flat_def split: list.splits if_splits sum.splits)
  from d have "dropWhile (\<lambda>c. c = CHR '' '') str \<noteq> []" by simp
  then obtain x where "x \<in> set str" "\<not> x = CHR '' ''"
    by auto
  then have "dropWhile (\<lambda>c. c = CHR '' '') (str @ extra) = CHR ''['' # rest @ extra"
    using d by (simp add: dropWhile_append1)
  then show ?thesis
    by (simp add: StringToEigen_flat_def flat_numbers_append [OF fl] m)
qed

lemma comma_for_bracket_space: "(comma_for_bracket c = CHR '' '') = (c = CHR '' '')"
  by (simp add: comma_for_bracket_def)

lemma comma_for_bracket_number_char: "number_char (comma_for_bracket c) = number_char c"
  by (simp add: comma_for_bracket_def number_char_def)

lemma comma_for_bracket_id: "number_char c \<Longrightarrow> comma_for_bracket c = c"
  by (simp add: comma_for_bracket_def number_char_def)

lemma next_field_comma_for_bracket:
  "next_field (map comma_for_bracket rest)
     = map_option (\<lambda>(f, r). (f, map comma_for_bracket r)) (next_field rest)"
proof -
  define r1 where "r1 = dropWhile (\<lambda>c. c = CHR '' '') rest"
  have 1: "dropWhile (\<lambda>c. c = CHR '' '') (map comma_for_bracket rest) = map comma_for_bracket r1"
    by (simp add: dropWhile_map comp_def comma_for_bracket_space r1_def)
  have 2: "dropWhile number_char (map comma_for_bracket r1) = map comma_for_bracket (dropWhile number_char r1)"
    by (simp add: dropWhile_map comp_def comma_for_bracket_number_char)
  have "takeWhile number_char (map comma_for_bracket r1) = map comma_for_bracket (takeWhile number_char r1)"
    by (simp add: takeWhile_map comp_def comma_for_bracket_number_char)
  also have "\<dots> = takeWhile number_char r1"
    by (rule map_idI) (auto dest: set_takeWhileD comma_for_bracket_id)
  finally have 3: "takeWhile number_char (map comma_for_bracket r1) = takeWhile number_char r1" .
  show ?thesis
    unfolding next_field_def Let_def 1 2 3 r1_def [symmetric]
    by (simp add: map_tl)
qed

lemma flat_numbers_comma_for_bracket:
  "flat_numbers conv n (map comma_for_bracket rest)
     = map_sum id (\<lambda>(vs, r). (vs, map comma_for_bracket r)) (flat_numbers conv n rest)"
proof (induction n arbitrary: rest)
  case 0
  then show ?case by simp
next
  case (Suc n)
  show ?case
  proof (cases "next_field rest")
    case None
    then show ?thesis
      by (simp add: next_field_comma_for_bracket)
  next
    case (Some fr)
    obtain f r where fr: "fr = (f, r)" by (cases fr)
    show ?thesis
      by (simp add: next_field_comma_for_bracket Some fr Suc.IH split: sum.splits)
  qed
qed

lemma StringToEigen_flat_comma_for_bracket:
  "StringToEigen_flat conv Rows Cols (map comma_for_bracket str) = StringToEigen_flat conv Rows Cols str"
proof -
  have 1: "dropWhile (\<lambda>c. c = CHR '' '') (map comma_for_bracket str)
      = map comma_for_bracket (dropWhile (\<lambda>c. c = CHR '' '') str)"
    by (simp add: dropWhile_map comp_def comma_for_bracket_space)
  have 2: "(comma_for_bracket c = CHR ''['') = (c = CHR ''['')" for c
    by (simp add: comma_for_bracket_def)
  show ?thesis
  proof (cases "dropWhile (\<lambda>c. c = CHR '' '') str")
    case Nil
    show ?thesis
      unfolding StringToEigen_flat_def 1 Nil by simp
  next
    case (Cons c rest)
    show ?thesis
      unfolding StringToEigen_flat_def 1 Cons
      by (simp add: 2 flat_numbers_comma_for_bracket split: sum.splits)
  qed
qed

text \<open>
  Claim C9. The character that ends the last number is not checked and what follows it is
  not read: parsing \<open>"[1,2,3,4,5,6]"\<close> as a 2x2 matrix succeeds with rows \<open>[1, 2]\<close> and
  \<open>[3, 4]\<close>, and so does \<open>"[1,2,3,4,"\<close>. In general the parser cannot tell a closing
  bracket from a comma (replacing every \<open>]\<close> by \<open>,\<close> never changes the result), and
  a successful parse stays the same whatever is appended to the input.
\<close>

theorem StringToEigen_ignores_terminator:
  "StringToEigen StringToNumber 2 2 ''[1,2,3,4,5,6]''
     = Inr [(0, 0) \<mapsto> 1, (0, 1) \<mapsto> 2, (1, 0) \<mapsto> 3, (1, 1) \<mapsto> 4]
   \<and> StringToEigen StringToNumber 2 2 ''[1,2,3,4,''
     = Inr [(0, 0) \<mapsto> 1, (0, 1) \<mapsto> 2, (1, 0) \<mapsto> 3, (1, 1) \<mapsto> 4]
   \<and> StringToEigen conv Rows Cols (map comma_for_bracket str) = StringToEigen conv Rows Cols str
   \<and> (StringToEigen conv Rows Cols str = Inr m
        \<longrightarrow> StringToEigen conv Rows Cols (str @ extra) = Inr m)"
proof (intro conjI)
  show "StringToEigen StringToNumber 2 2 ''[1,2,3,4,5,6]''
     = Inr [(0, 0) \<mapsto> 1, (0, 1) \<mapsto> 2, (1, 0) \<mapsto> 3, (1, 1) \<mapsto> 4]"
    by (simp add: parse_simps)
  show "StringToEigen StringToNumber 2 2 ''[1,2,3,4,''
     = Inr [(0, 0) \<mapsto> 1, (0, 1) \<mapsto> 2, (1, 0) \<mapsto> 3, (1, 1) \<mapsto> 4]"
    by (simp add: parse_simps)
  show "StringToEigen conv Rows Cols (map comma_for_bracket str) = StringToEigen conv Rows Cols str"
    by (simp add: StringToEigen_eq_flat StringToEigen_flat_comma_for_bracket)
  show "StringToEigen conv Rows Cols str = Inr m
        \<longrightarrow> StringToEigen conv Rows Cols (str @ extra) = Inr m"
    by (simp add: StringToEigen_eq_flat StringToEigen_flat_append)
qed

theorem StringToEigen_ignores_terminator_witness:
  "StringToEigen StringToNumber 2 2 ''[1,2,3,4]''
     = Inr [(0, 0) \<mapsto> 1, (0, 1) \<mapsto> 2, (1, 0) \<mapsto> 3, (1, 1) \<mapsto> 4]
   \<and> StringToEigen StringToNumber 2 2 (''[1,2,3,4]'' @ ''garbage'')
     = Inr [(0, 0) \<mapsto> 1, (0, 1) \<mapsto> 2, (1, 0) \<mapsto> 3, (1, 1) \<mapsto> 4]
   \<and> StringToEigen StringToNumber 2 2 (map comma_for_bracket ''[1,2,3,4]'')
     = Inr [(0, 0) \<mapsto> 1, (0, 1) \<mapsto> 2, (1, 0) \<mapsto> 3, (1, 1) \<mapsto> 4]"
proof -
  have h: "StringToEigen StringToNumber 2 2 ''[1,2,3,4]''
     = Inr [(0, 0) \<mapsto> 1, (0, 1) \<mapsto> 2, (1, 0) \<mapsto> 3, (1, 1) \<mapsto> 4]"
    by (simp add: parse_simps)
  show ?thesis
    using h StringToEigen_ignores_terminator
      [of StringToNumber 2 2 "''[1,2,3,4]''" "[(0, 0) \<mapsto> 1, (0, 1) \<mapsto> 2, (1, 0) \<mapsto> 3, (1, 1) \<mapsto> 4]" "''garbage''"]
    by simp
qed

subsection \<open>Failing parses\<close>

lemma next_field_delims:
  assumes "next_field rest = Some (f, rest')"
  shows "length (filter (\<lambda>c. \<not> number_char c) rest) = Suc (length (filter (\<lambda>c. \<not> number_char c) rest'))"
proof -
  define sp where "sp = takeWhile (\<lambda>c. c = CHR '' '') rest"
  define r1 where "r1 = dropWhile (\<lambda>c. c = CHR '' '') rest"
  define tw where "tw = takeWhile number_char r1"
  define r2 where "r2 = dropWhile number_char r1"
  from assms have ne: "r2 \<noteq> []" and r': "rest' = tl r2"
    by (auto simp: next_field_def Let_def r1_def r2_def split: if_splits)
  have hd: "\<not> number_char (hd r2)"
    using ne unfolding r2_def by (rule hd_dropWhile)
  have "\<forall>x\<in>set sp. number_char x"
    unfolding sp_def by (auto dest: set_takeWhileD simp: number_char_def)
  then have f_sp: "filter (\<lambda>c. \<not> number_char c) sp = []"
    by (simp add: filter_empty_conv)
  have "\<forall>x\<in>set tw. number_char x"
    unfolding tw_def by (auto dest: set_takeWhileD)
  then have f_tw: "filter (\<lambda>c. \<not> number_char c) tw = []"
    by (simp add: filter_empty_conv)
  have "rest = sp @ r1"
    by (simp add: sp_def r1_def)
  also have "r1 = tw @ r2"
    by (simp add: tw_def r2_def)
  also have "r2 = hd r2 # rest'"
    using ne r' by simp
  finally have "rest = sp @ tw @ hd r2 # rest'" .
  then have "filter (\<lambda>c. \<not> number_char c) rest = hd r2 # filter (\<lambda>c. \<not> number_char c) rest'"
    using f_sp f_tw hd by simp
  then show ?thesis by simp
qed

lemma flat_numbers_delims:
  "flat_numbers conv n rest = Inr (vs, rest') \<Longrightarrow>
   n \<le> length (filter (\<lambda>c. \<not> number_char c) rest)"
proof (induction n arbitrary: rest vs)
  case 0
  then show ?case by simp
next
  case (Suc n)
  from Suc.prems obtain f r v vs' where nf: "next_field rest = Some (f, r)"
    and fl: "flat_numbers conv n r = Inr (vs', rest')"
    by (auto split: option.splits sum.splits)
  from Suc.IH [OF fl] next_field_delims [OF nf] show ?case by simp
qed

lemma flat_numbers_error:
  "flat_numbers conv n rest = Inl e \<Longrightarrow> e = OutOfRange \<or> (\<exists>s. conv s = Inl e)"
proof (induction n arbitrary: rest)
  case 0
  then show ?case by simp
next
  case (Suc n)
  show ?case
  proof (cases "next_field rest")
    case None
    with Suc.prems show ?thesis by simp
  next
    case (Some fr)
    obtain f r where fr: "fr = (f, r)" by (cases fr)
    show ?thesis
    proof (cases "conv f")
      case (Inl e')
      with Suc.prems Some fr show ?thesis by auto
    next
      case (Inr v)
      with Suc.prems Some fr have "flat_numbers conv n r = Inl e"
        by (auto split: sum.splits)
      then show ?thesis by (rule Suc.IH)
    qed
  qed
qed

lemma delimiter_number_char: "(c = CHR '','' \<or> c = CHR '']'') = (\<not> number_char c)"
  by (auto simp: number_char_def)

lemma StringToEigen_flat_truncated:
  assumes "length (filter (\<lambda>c. c = CHR '','' \<or> c = CHR '']'') str) < Rows * Cols"
  shows "\<exists>e. StringToEigen_flat conv Rows Cols str = Inl e
           \<and> (e = OutOfRange \<or> e = RuntimeError ''StringToEigen didn't find open bracket''
                \<or> (\<exists>s. conv s = Inl e))"
proof (cases "dropWhile (\<lambda>c. c = CHR '' '') str")
  case Nil
  show ?thesis
    unfolding StringToEigen_flat_def Nil by simp
next
  case (Cons c rest)
  obtain pre where "str = pre @ c # rest"
    using Cons by (metis takeWhile_dropWhile_id)
  then have "length (filter (\<lambda>c. \<not> number_char c) rest) \<le> length (filter (\<lambda>c. \<not> number_char c) str)"
    by auto
  with assms have few: "length (filter (\<lambda>c. \<not> number_char c) rest) < Rows * Cols"
    by (simp add: delimiter_number_char)
  show ?thesis
  proof (cases "flat_numbers conv (Rows * Cols) rest")
    case (Inl e)
    from flat_numbers_error [OF this] show ?thesis
      unfolding StringToEigen_flat_def Cons by (auto simp: Inl)
  next
    case (Inr r)
    obtain vs rest' where "r = (vs, rest')" by (cases r)
    with Inr flat_numbers_delims few have False
      by fastforce
    then show ?thesis ..
  qed
qed

text \<open>
  Claim C5. The parse fails with the \<open>std::runtime_error\<close> when the first character
  that is not a space is not \<open>[\<close>, and with the \<open>std::out_of_range\<close> of \<open>at\<close> when
  the input is empty or all spaces. An input with fewer than \<open>Rows * Cols\<close> terminators
  (commas and closing brackets), such as \<open>"[1,2,3]"\<close> for a 2x2 matrix, always fails: with
  the out-of-range error, the missing-bracket error, or the error of the number conversion
  that failed first. A failure carries no matrix, and a success carries a matrix with
  every coefficient assigned.
\<close>

theorem StringToEigen_fails:
  "(dropWhile (\<lambda>c. c = CHR '' '') str = c # rest \<and> c \<noteq> CHR ''[''
      \<longrightarrow> StringToEigen conv Rows Cols str = Inl (RuntimeError ''StringToEigen didn't find open bracket''))
   \<and> (dropWhile (\<lambda>c. c = CHR '' '') str = []
      \<longrightarrow> StringToEigen conv Rows Cols str = Inl OutOfRange)
   \<and> (length (filter (\<lambda>c. c = CHR '','' \<or> c = CHR '']'') str) < Rows * Cols
      \<longrightarrow> (\<exists>e. StringToEigen conv Rows Cols str = Inl e
              \<and> (e = OutOfRange \<or> e = RuntimeError ''StringToEigen didn't find open bracket''
                   \<or> (\<exists>s. conv s = Inl e))))
   \<and> (StringToEigen conv Rows Cols str = Inr m
      \<longrightarrow> (\<forall>i j. m (i, j) \<noteq> None \<longleftrightarrow> i < Rows \<and> j < Cols))
   \<and> StringToEigen StringToNumber 2 2 ''1,2,3,4]''
        = Inl (RuntimeError ''StringToEigen didn't find open bracket'')
   \<and> StringToEigen StringToNumber 2 2 ''[1,2,3]'' = Inl OutOfRange
   \<and> StringToEigen StringToNumber 2 2 ''[1,2,3'' = Inl OutOfRange
   \<and> StringToEigen StringToNumber 2 2 '''' = Inl OutOfRange"
proof (intro conjI impI)
  assume "dropWhile (\<lambda>c. c = CHR '' '') str = c # rest \<and> c \<noteq> CHR ''[''"
  then show "StringToEigen conv Rows Cols str = Inl (RuntimeError ''StringToEigen didn't find open bracket'')"
    by (simp add: StringToEigen_eq_flat StringToEigen_flat_def)
next
  assume a: "dropWhile (\<lambda>c. c = CHR '' '') str = []"
  show "StringToEigen conv Rows Cols str = Inl OutOfRange"
    unfolding StringToEigen_eq_flat StringToEigen_flat_def a by simp
next
  assume "length (filter (\<lambda>c. c = CHR '','' \<or> c = CHR '']'') str) < Rows * Cols"
  then show "\<exists>e. StringToEigen conv Rows Cols str = Inl e
              \<and> (e = OutOfRange \<or> e = RuntimeError ''StringToEigen didn't find open bracket''
                   \<or> (\<exists>s. conv s = Inl e))"
    unfolding StringToEigen_eq_flat by (rule StringToEigen_flat_truncated)
next
  assume "StringToEigen conv Rows Cols str = Inr m"
  then obtain vs where "m = row_major Rows Cols vs"
    by (auto simp: StringToEigen_eq_flat StringToEigen_flat_def
        split: list.splits if_splits sum.splits)
  then show "\<forall>i j. m (i, j) \<noteq> None \<longleftrightarrow> i < Rows \<and> j < Cols"
    by (simp add: row_major_def)
next
  show "StringToEigen StringToNumber 2 2 ''1,2,3,4]''
        = Inl (RuntimeError ''StringToEigen didn't find open bracket'')"
    by (simp add: parse_simps)
  show "StringToEigen StringToNumber 2 2 ''[1,2,3]'' = Inl OutOfRange"
    by (simp add: parse_simps)
  show "StringToEigen StringToNumber 2 2 ''[1,2,3'' = Inl OutOfRange"
    by (simp add: parse_simps)
  show "StringToEigen StringToNumber 2 2 '''' = Inl OutOfRange"
    by (simp add: parse_simps)
qed

theorem StringToEigen_fails_witness:
  "dropWhile (\<lambda>c. c = CHR '' '') '' (1,2,3,4]'' = CHR ''('' # ''1,2,3,4]'' \<and> CHR ''('' \<noteq> CHR ''[''
   \<and> StringToEigen StringToNumber 2 2 '' (1,2,3,4]''
        = Inl (RuntimeError ''StringToEigen didn't find open bracket'')
   \<and> dropWhile (\<lambda>c. c = CHR '' '') ''   '' = []
   \<and> StringToEigen StringToNumber 2 2 ''   '' = Inl OutOfRange
   \<and> length (filter (\<lambda>c. c = CHR '','' \<or> c = CHR '']'') ''[1,2,3]'') < 2 * 2
   \<and> (\<exists>e. StringToEigen StringToNumber 2 2 ''[1,2,3]'' = Inl e)
   \<and> (\<exists>m. StringToEigen StringToNumber 2 2 ''[1,2,3,4]'' = Inr m
         \<and> m (1, 1) \<noteq> None \<and> m (2, 0) = None)"
proof -
  have 1: "dropWhile (\<lambda>c. c = CHR '' '') '' (1,2,3,4]'' = CHR ''('' # ''1,2,3,4]'' \<and> CHR ''('' \<noteq> CHR ''[''"
    by simp
  have 2: "dropWhile (\<lambda>c. c = CHR '' '') ''   '' = []"
    by simp
  have 3: "length (filter (\<lambda>c. c = CHR '','' \<or> c = CHR '']'') ''[1,2,3]'') < 2 * 2"
    by simp
  have 4: "StringToEigen StringToNumber 2 2 ''[1,2,3,4]''
     = Inr [(0, 0) \<mapsto> 1, (0, 1) \<mapsto> 2, (1, 0) \<mapsto> 3, (1, 1) \<mapsto> 4]"
    by (simp add: parse_simps)
  note t = StringToEigen_fails [where conv = StringToNumber and Rows = 2 and Cols = 2]
  have a: "StringToEigen StringToNumber 2 2 '' (1,2,3,4]''
        = Inl (RuntimeError ''StringToEigen didn't find open bracket'')"
    using t [where str = "'' (1,2,3,4]''" and c = "CHR ''(''" and rest = "''1,2,3,4]''"] 1 by blast
  have b: "StringToEigen StringToNumber 2 2 ''   '' = Inl OutOfRange"
    using t [where str = "''   ''"] 2 by blast
  have c: "\<exists>e. StringToEigen StringToNumber 2 2 ''[1,2,3]'' = Inl e"
    using t [where str = "''[1,2,3]''"] 3 by blast
  note d = t [where str = "''[1,2,3,4]''", THEN conjunct2, THEN conjunct2, THEN conjunct2,
      THEN conjunct1, THEN mp, OF 4]
  have e: "[(0::nat, 0::nat) \<mapsto> 1, (0, 1) \<mapsto> 2, (1, 0) \<mapsto> 3, (1, 1) \<mapsto> (4::real)] (1, 1) \<noteq> None"
    using d [rule_format, of "1::nat" "1::nat"] by simp
  have f: "[(0::nat, 0::nat) \<mapsto> 1, (0, 1) \<mapsto> 2, (1, 0) \<mapsto> 3, (1, 1) \<mapsto> (4::real)] (2, 0) = None"
    using d [rule_format, of "2::nat" "0::nat"] by simp
  show ?thesis
    using 1 2 3 4 a b c e f by simp
qed

section \<open>Machine arithmetic\<close>

subsection \<open>32-bit arithmetic\<close>

lemma wrap32_id: "is_int32 k \<Longrightarrow> wrap32 k = k"
  by (simp add: wrap32_def is_int32_def)

lemma wrap32_range: "is_int32 (wrap32 k)"
proof -
  have "0 \<le> (k + 2147483648) mod 4294967296" "(k + 2147483648) mod 4294967296 < 4294967296"
    by simp_all
  then show ?thesis
    unfolding wrap32_def is_int32_def by linarith
qed

lemma wrap32_cong:
  assumes "k mod 4294967296 = l mod 4294967296"
  shows "wrap32 k = wrap32 l"
proof -
  have "(k + 2147483648) mod 4294967296 = (l + 2147483648) mod 4294967296"
    using assms by (rule mod_add_cong) simp
  then show ?thesis
    by (simp add: wrap32_def)
qed

lemma wrap32_mod: "wrap32 k mod 4294967296 = k mod 4294967296"
proof -
  have "wrap32 k mod 4294967296 = (k + 2147483648 - 2147483648) mod 4294967296"
    unfolding wrap32_def by (rule mod_diff_left_eq)
  then show ?thesis by simp
qed

lemma wrap32_minus: "wrap32 (- k) = wrap32 (- wrap32 k)"
  by (rule wrap32_cong, rule mod_minus_cong) (simp add: wrap32_mod)

lemma int_abs_exact:
  assumes "\<bar>k\<bar> \<le> 2147483647"
  shows "int_abs (wrap32 k) = \<bar>k\<bar>"
proof -
  have "is_int32 k" "is_int32 (- k)"
    using assms unfolding is_int32_def by linarith+
  then have "wrap32 k = k" "wrap32 (- k) = - k"
    by (simp_all only: wrap32_id)
  then show ?thesis
    by (simp add: int_abs_def)
qed

lemma int_abs_wrap32_minus:
  assumes "is_int32 w"
  shows "int_abs (wrap32 (- w)) = int_abs w"
proof (cases "w = - 2147483648")
  case True
  then show ?thesis
    by (simp add: int_abs_def wrap32_def)
next
  case False
  with assms have "\<bar>w\<bar> \<le> 2147483647" "\<bar>- w\<bar> \<le> 2147483647"
    unfolding is_int32_def by linarith+
  then have "int_abs (wrap32 w) = \<bar>w\<bar>" "int_abs (wrap32 (- w)) = \<bar>- w\<bar>"
    by (simp_all only: int_abs_exact)
  then show ?thesis
    using assms by (simp add: wrap32_id)
qed

lemma int_abs_symmetric: "int_abs (wrap32 (a - b)) = int_abs (wrap32 (b - a))"
proof -
  have "wrap32 (b - a) = wrap32 (- wrap32 (a - b))"
    using wrap32_minus [of "a - b"] by simp
  then show ?thesis
    by (simp add: int_abs_wrap32_minus wrap32_range)
qed

lemma truncate_div_error:
  assumes "q \<noteq> 0"
  shows "\<bar>real_of_int (truncate_div p q) - real_of_int p / real_of_int q\<bar> < 1"
proof -
  define x where "x = real_of_int \<bar>p\<bar> / real_of_int \<bar>q\<bar>"
  have fl: "real_of_int (\<bar>p\<bar> div \<bar>q\<bar>) = of_int \<lfloor>x\<rfloor>"
    unfolding x_def by (simp only: floor_divide_of_int_eq)
  have near: "\<bar>of_int \<lfloor>x\<rfloor> - x\<bar> < 1"
    by linarith
  have sg: "real_of_int p / real_of_int q = of_int (sgn p * sgn q) * x"
    unfolding x_def using assms
    by (cases "p < 0"; cases "q < 0"; cases "p = 0") (simp_all add: sgn_if)
  have unit: "\<bar>real_of_int (sgn p * sgn q)\<bar> \<le> 1"
    by (simp add: sgn_if)
  have "real_of_int (truncate_div p q) - real_of_int p / real_of_int q
      = of_int (sgn p * sgn q) * (of_int \<lfloor>x\<rfloor> - x)"
    unfolding truncate_div_def sg by (simp add: fl algebra_simps)
  then have "\<bar>real_of_int (truncate_div p q) - real_of_int p / real_of_int q\<bar>
      = \<bar>real_of_int (sgn p * sgn q)\<bar> * \<bar>of_int \<lfloor>x\<rfloor> - x\<bar>"
    by (simp add: abs_mult)
  also have "\<dots> \<le> 1 * \<bar>of_int \<lfloor>x\<rfloor> - x\<bar>"
    using unit by (intro mult_right_mono) simp_all
  finally show ?thesis
    using near by simp
qed

subsection \<open>Powers of two and binades\<close>

lemma pow2_powi: "pow2 e = 2 powi e"
  by (simp add: pow2_def power_int_def inverse_eq_divide power_one_over)

lemma pow2_pos: "0 < pow2 e"
  by (simp add: pow2_def)

lemma pow2_add: "pow2 (a + b) = pow2 a * pow2 b"
  by (simp add: pow2_powi power_int_add)

lemma pow2_nat: "pow2 (int k) = 2 ^ k"
  by (simp add: pow2_def)

lemma halvings_mono: "v \<le> t \<Longrightarrow> halvings k v \<le> halvings k t"
  by (induction k arbitrary: v t) auto

lemma doublings_anti: "v \<le> t \<Longrightarrow> doublings k t \<le> doublings k v"
  by (induction k arbitrary: v t) auto

lemma binade_mono: "v \<le> t \<Longrightarrow> binade v \<le> binade t"
  using halvings_mono [of v t 1023] doublings_anti [of v t 1022]
  by (auto simp: binade_def)

lemma quantum_pos: "0 < quantum v"
  by (simp add: quantum_def pow2_pos)

lemma quantum_mono:
  assumes "v \<le> t"
  shows "\<exists>k. quantum t = quantum v * 2 ^ k"
proof -
  define k where "k = nat (binade t - binade v)"
  have "binade t - 52 = (binade v - 52) + int k"
    using binade_mono [OF assms] by (simp add: k_def)
  then have "quantum t = pow2 ((binade v - 52) + int k)"
    unfolding quantum_def by (rule arg_cong)
  also have "\<dots> = quantum v * 2 ^ k"
    unfolding quantum_def pow2_add pow2_nat ..
  finally show ?thesis ..
qed

subsection \<open>Rounding to an integer\<close>

lemma round_half_even_cases:
  "round_half_even x = \<lfloor>x\<rfloor> \<or> round_half_even x = \<lfloor>x\<rfloor> + 1 \<and> 1 / 2 \<le> x - of_int \<lfloor>x\<rfloor>"
  by (auto simp: round_half_even_def Let_def)

lemma round_half_even_of_int: "round_half_even (of_int n) = n"
  by (simp add: round_half_even_def)

lemma round_half_even_le:
  assumes "x \<le> of_int n"
  shows "round_half_even x \<le> n"
proof -
  show ?thesis
  proof (cases "x = of_int n")
    case True
    then show ?thesis by (simp add: round_half_even_of_int)
  next
    case False
    with assms have "x < of_int n" by simp
    then have "\<lfloor>x\<rfloor> < n"
      by (simp add: floor_less_iff)
    with round_half_even_cases [of x] show ?thesis by auto
  qed
qed

lemma round_half_even_nonneg: "0 \<le> x \<Longrightarrow> 0 \<le> round_half_even x"
  using round_half_even_cases [of x] by (auto simp: zero_le_floor)

lemma round_half_even_error: "\<bar>of_int (round_half_even x) - x\<bar> \<le> 1 / 2"
  unfolding round_half_even_def Let_def by (simp; linarith)

subsection \<open>Rounding to a double\<close>

lemma round_mag_nonneg: "0 \<le> v \<Longrightarrow> 0 \<le> round_mag v"
  unfolding round_mag_def
  by (intro mult_nonneg_nonneg) (simp_all add: round_half_even_nonneg quantum_pos less_imp_le)

lemma round_mag_zero: "round_mag 0 = 0"
  by (simp add: round_mag_def round_half_even_def)

lemma round_mag_le:
  assumes "v \<le> t" and "round_mag t = t"
  shows "round_mag v \<le> t"
proof -
  from quantum_mono [OF assms(1)] obtain k where q: "quantum t = quantum v * 2 ^ k" ..
  define n where "n = round_half_even (t / quantum t) * 2 ^ k"
  have t: "t = of_int n * quantum v"
    using assms(2) unfolding round_mag_def n_def q by (simp add: mult.assoc mult.commute)
  have "v \<le> of_int n * quantum v"
    using assms(1) t by simp
  then have "v / quantum v \<le> of_int n"
    using quantum_pos [of v] by (simp add: pos_divide_le_eq)
  then have "round_half_even (v / quantum v) \<le> n"
    by (rule round_half_even_le)
  then have "of_int (round_half_even (v / quantum v)) * quantum v \<le> of_int n * quantum v"
    using quantum_pos [of v] by (intro mult_right_mono) simp_all
  then show ?thesis
    unfolding round_mag_def using t by simp
qed

lemma round_double_exact: "exact v \<Longrightarrow> round_double s \<bar>v\<bar> = Fin s \<bar>v\<bar>"
  by (simp add: exact_def round_double_def)

lemma round_double_fabs: "fabs (round_double s v) = round_double False v"
  by (simp add: round_double_def Let_def)

lemma fabs_round_sum: "fabs (round_sum z v) = (if v = 0 then Fin False 0 else round_double False \<bar>v\<bar>)"
  by (simp add: round_sum_def round_double_fabs)

lemma fabs_fsub_symmetric: "fabs (fsub a b) = fabs (fsub b a)"
  by (cases a; cases b) (auto simp: fsub_def fabs_round_sum abs_minus_commute add.commute)

lemmas double_simps =
  round_double_def round_mag_def quantum_def binade_def pow2_def round_half_even_def
  round_sum_def fsub_def exact_def

lemma val_fneg: "val (fneg a) = - val a"
  by (cases a) simp_all

lemma round_sum_exact:
  assumes "exact v"
  shows "\<exists>s m. round_sum z v = Fin s m \<and> 0 \<le> m \<and> val (Fin s m) = v"
proof (cases "v = 0")
  case True
  then show ?thesis by (simp add: round_sum_def)
next
  case False
  have "round_sum z v = Fin (v < 0) \<bar>v\<bar>"
    using False round_double_exact [OF assms] by (simp add: round_sum_def)
  then show ?thesis by auto
qed

lemma fadd_exact:
  assumes "is_finite a" and "is_finite b" and "exact (val a + val b)"
  shows "\<exists>s m. fadd a b = Fin s m \<and> 0 \<le> m \<and> val (Fin s m) = val a + val b"
proof -
  from assms(1,2) obtain s m t n where ab: "a = Fin s m" "b = Fin t n"
    by (cases a; cases b) simp_all
  show ?thesis
    using round_sum_exact [OF assms(3), of "s \<and> t"] unfolding ab by simp
qed

lemma fsub_exact:
  assumes "is_finite a" and "is_finite b" and "exact (val a - val b)"
  shows "\<exists>s m. fsub a b = Fin s m \<and> 0 \<le> m \<and> val (Fin s m) = val a - val b"
proof -
  have "is_finite (fneg b)"
    using assms(2) by (cases b) simp_all
  moreover have "exact (val a + val (fneg b))"
    using assms(3) by (simp add: val_fneg)
  ultimately show ?thesis
    using fadd_exact [OF assms(1), of "fneg b"] by (simp add: fsub_def val_fneg)
qed

lemma fmul_exact:
  assumes "0 \<le> m" and "0 \<le> n" and "exact (m * n)"
  shows "fmul (Fin s m) (Fin t n) = Fin (s \<noteq> t) (m * n)
         \<and> val (Fin (s \<noteq> t) (m * n)) = val (Fin s m) * val (Fin t n)"
proof -
  have "\<bar>m * n\<bar> = m * n"
    using assms(1,2) by simp
  then have "round_double (s \<noteq> t) (m * n) = Fin (s \<noteq> t) (m * n)"
    using round_double_exact [OF assms(3), of "s \<noteq> t"] by simp
  then show ?thesis by simp
qed

lemma fdiv_exact:
  assumes "0 \<le> m" and "0 < n" and "exact (m / n)"
  shows "fdiv (Fin s m) (Fin t n) = Fin (s \<noteq> t) (m / n)
         \<and> val (Fin (s \<noteq> t) (m / n)) = val (Fin s m) / val (Fin t n)"
proof -
  have "\<bar>m / n\<bar> = m / n"
    using assms(1,2) by simp
  then have "round_double (s \<noteq> t) (m / n) = Fin (s \<noteq> t) (m / n)"
    using round_double_exact [OF assms(3), of "s \<noteq> t"] by simp
  then show ?thesis
    using assms(2) by simp
qed

lemma exact_abs: "exact \<bar>v\<bar> = exact v" and exact_minus: "exact (- v) = exact v"
  by (simp_all add: exact_def)

lemma mapToRange_double_exact:
  assumes fin: "is_finite x" "is_finite a" "is_finite b" "is_finite c" "is_finite d"
    and e1: "exact (val x - val a)"
    and e2: "exact (val d - val c)"
    and e3: "exact ((val x - val a) * (val d - val c))"
    and e4: "exact (val b - val a)"
    and ne: "val b \<noteq> val a"
    and e5: "exact ((val x - val a) * (val d - val c) / (val b - val a))"
    and e6: "exact (val c + (val x - val a) * (val d - val c) / (val b - val a))"
  shows "is_finite (mapToRange_double x a b c d)
         \<and> val (mapToRange_double x a b c d)
             = val c + (val x - val a) * (val d - val c) / (val b - val a)"
proof -
  from fsub_exact [OF fin(1,2) e1] obtain s1 m1
    where 1: "fsub x a = Fin s1 m1" "0 \<le> m1" "val (Fin s1 m1) = val x - val a" by blast
  from fsub_exact [OF fin(5,4) e2] obtain s2 m2
    where 2: "fsub d c = Fin s2 m2" "0 \<le> m2" "val (Fin s2 m2) = val d - val c" by blast
  from fsub_exact [OF fin(3,2) e4] obtain s3 m3
    where 3: "fsub b a = Fin s3 m3" "0 \<le> m3" "val (Fin s3 m3) = val b - val a" by blast
  have m3: "0 < m3"
    using 3 ne by (cases "m3 = 0") (auto split: if_splits)
  have a1: "m1 = \<bar>val x - val a\<bar>"
    using 1 by (auto split: if_splits)
  have a2: "m2 = \<bar>val d - val c\<bar>"
    using 2 by (auto split: if_splits)
  have a3: "m3 = \<bar>val b - val a\<bar>"
    using 3 by (auto split: if_splits)
  have abs_p: "m1 * m2 = \<bar>(val x - val a) * (val d - val c)\<bar>"
    by (simp add: a1 a2 abs_mult)
  have "exact (m1 * m2)"
    unfolding abs_p exact_abs by (rule e3)
  from fmul_exact [OF 1(2) 2(2) this, of s1 s2]
  have p: "fmul (Fin s1 m1) (Fin s2 m2) = Fin (s1 \<noteq> s2) (m1 * m2)"
    "val (Fin (s1 \<noteq> s2) (m1 * m2)) = (val x - val a) * (val d - val c)"
    using 1(3) 2(3) by simp_all
  have abs_q: "m1 * m2 / m3 = \<bar>(val x - val a) * (val d - val c) / (val b - val a)\<bar>"
    by (simp add: abs_p a3)
  have "exact (m1 * m2 / m3)"
    unfolding abs_q exact_abs by (rule e5)
  from fdiv_exact [OF _ m3 this, of "s1 \<noteq> s2" s3]
  have q: "fdiv (Fin (s1 \<noteq> s2) (m1 * m2)) (Fin s3 m3) = Fin ((s1 \<noteq> s2) \<noteq> s3) (m1 * m2 / m3)"
    "val (Fin ((s1 \<noteq> s2) \<noteq> s3) (m1 * m2 / m3))
       = (val x - val a) * (val d - val c) / (val b - val a)"
    using 1(2) 2(2) p(2) 3(3) by simp_all
  have "is_finite (Fin ((s1 \<noteq> s2) \<noteq> s3) (m1 * m2 / m3))"
    by simp
  from fadd_exact [OF fin(4) this] e6 q(2)
  obtain s m where r: "fadd c (Fin ((s1 \<noteq> s2) \<noteq> s3) (m1 * m2 / m3)) = Fin s m"
    "val (Fin s m) = val c + (val x - val a) * (val d - val c) / (val b - val a)"
    by auto
  have "mapToRange_double x a b c d = Fin s m"
    unfolding mapToRange_double_def 1 2 3 p q r ..
  then show ?thesis
    using r(2) by simp
qed

lemma mapToRange_double_zero_divisor:
  assumes "feq a b"
  shows "\<not> is_finite (mapToRange_double x a b c d)"
proof -
  have z: "fsub b a = NaN \<or> (\<exists>s. fsub b a = Fin s 0)"
    using assms by (cases a; cases b) (auto simp: fsub_def round_sum_def)
  define n where "n = fmul (fsub x a) (fsub d c)"
  define q where "q = fdiv n (fsub b a)"
  have "\<not> is_finite q"
    unfolding q_def using z by (cases n) (auto split: if_splits)
  then have "\<not> is_finite (fadd c q)"
    by (cases c; cases q) auto
  then show ?thesis
    by (simp add: mapToRange_double_def n_def q_def)
qed

lemma mapToRange_int_exact:
  assumes "is_int32 (x - a)" and "is_int32 (d - c)" and "is_int32 ((x - a) * (d - c))"
    and "is_int32 (b - a)" and "b \<noteq> a"
    and "is_int32 (truncate_div ((x - a) * (d - c)) (b - a))"
    and "is_int32 (c + truncate_div ((x - a) * (d - c)) (b - a))"
  shows "mapToRange_int x a b c d = Inr (c + truncate_div ((x - a) * (d - c)) (b - a))"
proof -
  have trap: "\<not> ((x - a) * (d - c) = - 2147483648 \<and> b - a = - 1)"
  proof
    assume "(x - a) * (d - c) = - 2147483648 \<and> b - a = - 1"
    then have "truncate_div ((x - a) * (d - c)) (b - a) = 2147483648"
      by (simp add: truncate_div_def)
    with assms(6) show False
      by (simp add: is_int32_def)
  qed
  show ?thesis
    using assms(5) trap
    by (simp add: mapToRange_int_def int_sub_def int_mul_def int_add_def int_div_def
        wrap32_id assms(1-4,7))
qed

lemma IsNumbersEqual_double_exact:
  assumes "is_finite a" "is_finite b" "is_finite tol" and "exact (val a - val b)"
  shows "IsNumbersEqual_double a b tol \<longleftrightarrow> \<bar>val a - val b\<bar> \<le> val tol"
proof -
  from fsub_exact [OF assms(1,2,4)] obtain s m
    where 1: "fsub a b = Fin s m" "0 \<le> m" "val (Fin s m) = val a - val b" by blast
  then have "m = \<bar>val a - val b\<bar>"
    by (auto split: if_splits)
  moreover obtain t n where "tol = Fin t n"
    using assms(3) by (cases tol) simp_all
  ultimately show ?thesis
    by (simp add: IsNumbersEqual_double_def 1)
qed

lemma IsNumbersEqual_double_within:
  assumes "is_finite a" "is_finite b" "is_finite tol" "is_double tol"
    and "\<bar>val a - val b\<bar> \<le> val tol"
  shows "IsNumbersEqual_double a b tol"
proof -
  obtain s m t n where ab: "a = Fin s m" "b = Fin t n"
    using assms(1,2) by (cases a; cases b) simp_all
  obtain u k where tol: "tol = Fin u k"
    using assms(3) by (cases tol) simp_all
  define v where "v = val a - val b"
  have k: "0 \<le> k" "k < 2 ^ 1024" "round_mag k = k"
    using assms(4) by (simp_all add: tol)
  have sub: "fabs (fsub a b) = (if v = 0 then Fin False 0 else round_double False \<bar>v\<bar>)"
    unfolding ab v_def by (simp add: fsub_def fabs_round_sum)
  show ?thesis
  proof (cases "v = 0")
    case True
    with assms(5) show ?thesis
      by (simp add: IsNumbersEqual_double_def sub tol v_def)
  next
    case False
    with assms(5) have pos: "\<not> u" "\<bar>v\<bar> \<le> k"
      using k(1) by (auto simp: tol v_def split: if_splits)
    from round_mag_le [OF pos(2) k(3)] have r: "round_mag \<bar>v\<bar> \<le> k" .
    with k(2) have "round_double False \<bar>v\<bar> = Fin False (round_mag \<bar>v\<bar>)"
      by (simp add: round_double_def)
    with False r pos(1) show ?thesis
      by (simp add: IsNumbersEqual_double_def sub tol)
  qed
qed

lemma IsNumbersEqual_double_reflexive:
  assumes "is_finite a" and "fle (Fin False 0) tol"
  shows "IsNumbersEqual_double a a tol"
proof -
  obtain s m where "a = Fin s m"
    using assms(1) by (cases a) simp_all
  then have "fabs (fsub a a) = Fin False 0"
    by (simp add: fsub_def fabs_round_sum)
  with assms(2) show ?thesis
    by (simp add: IsNumbersEqual_double_def)
qed

lemmas machine_simps =
  round_double_def round_mag_def quantum_def binade_def pow2_def round_half_even_def
  round_sum_def fsub_def exact_def eval_nat_numeral IsNumbersEqual_double_def
  IsNumbersEqual_int_def int_abs_def int_sub_def wrap32_def mapToRange_int_def
  mapToRange_double_def int_mul_def int_add_def int_div_def truncate_div_def is_int32_def

theorem IsNumbersEqual_counterexample:
  "IsNumbersEqual_double (Fin False 1) (Fin True (1 / 2 ^ 60)) (Fin False 1)
   \<and> \<not> \<bar>val (Fin False 1) - val (Fin True (1 / 2 ^ 60))\<bar> \<le> val (Fin False 1)
   \<and> is_double (Fin False 1) \<and> is_double (Fin True (1 / 2 ^ 60))
   \<and> \<not> IsNumbersEqual_double (Infty False) (Infty False) (Fin False 1)
   \<and> IsNumbersEqual_int 2147483647 (- 1) 0
   \<and> \<not> \<bar>2147483647 - (- 1)\<bar> \<le> (0::int)"
  by (simp add: machine_simps)

theorem IsNumbersEqual_machine:
  fixes a b tol :: int and x y eps :: double
  shows "(\<bar>a - b\<bar> \<le> 2147483647 \<longrightarrow> (IsNumbersEqual_int a b tol \<longleftrightarrow> \<bar>a - b\<bar> \<le> tol))
       \<and> (IsNumbersEqual_int a b tol \<longleftrightarrow> IsNumbersEqual_int b a tol)
       \<and> (0 \<le> tol \<longrightarrow> IsNumbersEqual_int a a tol)
       \<and> (is_finite x \<and> is_finite y \<and> is_finite eps \<and> exact (val x - val y)
            \<longrightarrow> (IsNumbersEqual_double x y eps \<longleftrightarrow> \<bar>val x - val y\<bar> \<le> val eps))
       \<and> (is_finite x \<and> is_finite y \<and> is_finite eps \<and> is_double eps
            \<and> \<bar>val x - val y\<bar> \<le> val eps
            \<longrightarrow> IsNumbersEqual_double x y eps)
       \<and> (IsNumbersEqual_double x y eps \<longleftrightarrow> IsNumbersEqual_double y x eps)
       \<and> (is_finite x \<and> fle (Fin False 0) eps \<longrightarrow> IsNumbersEqual_double x x eps)"
proof (intro conjI impI)
  assume "\<bar>a - b\<bar> \<le> 2147483647"
  then show "IsNumbersEqual_int a b tol \<longleftrightarrow> \<bar>a - b\<bar> \<le> tol"
    by (simp add: IsNumbersEqual_int_def int_sub_def int_abs_exact)
next
  show "IsNumbersEqual_int a b tol \<longleftrightarrow> IsNumbersEqual_int b a tol"
    by (simp add: IsNumbersEqual_int_def int_sub_def int_abs_symmetric [of a b])
next
  assume "0 \<le> tol"
  then show "IsNumbersEqual_int a a tol"
    by (simp add: IsNumbersEqual_int_def int_sub_def int_abs_def wrap32_def)
next
  assume "is_finite x \<and> is_finite y \<and> is_finite eps \<and> exact (val x - val y)"
  then show "IsNumbersEqual_double x y eps \<longleftrightarrow> \<bar>val x - val y\<bar> \<le> val eps"
    by (simp add: IsNumbersEqual_double_exact)
next
  assume "is_finite x \<and> is_finite y \<and> is_finite eps \<and> is_double eps
            \<and> \<bar>val x - val y\<bar> \<le> val eps"
  then show "IsNumbersEqual_double x y eps"
    by (simp add: IsNumbersEqual_double_within)
next
  show "IsNumbersEqual_double x y eps \<longleftrightarrow> IsNumbersEqual_double y x eps"
    by (simp add: IsNumbersEqual_double_def fabs_fsub_symmetric [of x y])
next
  assume "is_finite x \<and> fle (Fin False 0) eps"
  then show "IsNumbersEqual_double x x eps"
    by (simp add: IsNumbersEqual_double_reflexive)
qed

theorem IsNumbersEqual_machine_witness:
  "\<bar>(3::int) - 5\<bar> \<le> 2147483647 \<and> (0::int) \<le> 2
   \<and> IsNumbersEqual_int 3 5 2 \<and> IsNumbersEqual_int 5 3 2 \<and> IsNumbersEqual_int 3 3 2
   \<and> is_finite (Fin False 1) \<and> is_finite (Fin False 3) \<and> is_finite (Fin False 2)
   \<and> exact (val (Fin False 1) - val (Fin False 3)) \<and> is_double (Fin False 2)
   \<and> \<bar>val (Fin False 1) - val (Fin False 3)\<bar> \<le> val (Fin False 2)
   \<and> fle (Fin False 0) (Fin False 2)
   \<and> IsNumbersEqual_double (Fin False 1) (Fin False 3) (Fin False 2)
   \<and> IsNumbersEqual_double (Fin False 3) (Fin False 1) (Fin False 2)
   \<and> IsNumbersEqual_double (Fin False 1) (Fin False 1) (Fin False 2)"
proof -
  have h: "\<bar>(3::int) - 5\<bar> \<le> 2147483647 \<and> (0::int) \<le> 2
     \<and> \<bar>(3::int) - 5\<bar> \<le> 2
     \<and> is_finite (Fin False 1) \<and> is_finite (Fin False 3) \<and> is_finite (Fin False 2)
     \<and> exact (val (Fin False 1) - val (Fin False 3)) \<and> is_double (Fin False 2)
     \<and> \<bar>val (Fin False 1) - val (Fin False 3)\<bar> \<le> val (Fin False 2)
     \<and> fle (Fin False 0) (Fin False 2)"
    by (simp add: machine_simps)
  show ?thesis
    using h IsNumbersEqual_machine [where a = 3 and b = 5 and tol = 2 and x = "Fin False 1"
        and y = "Fin False 3" and eps = "Fin False 2"]
      IsNumbersEqual_machine [where a = 3 and b = 3 and tol = 2 and x = "Fin False 1"
        and y = "Fin False 1" and eps = "Fin False 2"]
    by blast
qed

theorem mapToRange_counterexample:
  "mapToRange_int 7 0 2 0 1 = Inr 3
   \<and> real_of_int 3 \<noteq> 0 + (7 - 0) * (1 - 0) / (2 - 0)
   \<and> mapToRange_double (Fin False 3) (Fin False 0) (Fin False 3) (Fin False 0)
        (Fin False (3602879701896397 / 36028797018963968))
       = Fin False (7205759403792795 / 72057594037927936)
   \<and> is_double (Fin False (3602879701896397 / 36028797018963968))
   \<and> (7205759403792795 / 72057594037927936 :: real)
       \<noteq> 0 + (3 - 0) * (3602879701896397 / 36028797018963968 - 0) / (3 - 0)"
  by (simp add: machine_simps)

theorem mapToRange_machine:
  fixes x a b c d :: int and u p q r s :: double
  shows "(is_int32 (x - a) \<and> is_int32 (d - c) \<and> is_int32 ((x - a) * (d - c))
            \<and> is_int32 (b - a) \<and> b \<noteq> a
            \<and> is_int32 (truncate_div ((x - a) * (d - c)) (b - a))
            \<and> is_int32 (c + truncate_div ((x - a) * (d - c)) (b - a))
          \<longrightarrow> mapToRange_int x a b c d = Inr (c + truncate_div ((x - a) * (d - c)) (b - a))
              \<and> \<bar>real_of_int (c + truncate_div ((x - a) * (d - c)) (b - a))
                  - (real_of_int c
                     + real_of_int ((x - a) * (d - c)) / real_of_int (b - a))\<bar> < 1)
       \<and> mapToRange_int 5 0 10 0 100 = Inr 50
       \<and> mapToRange_int x a a c d = Inl DivisionByZero
       \<and> (is_finite u \<and> is_finite p \<and> is_finite q \<and> is_finite r \<and> is_finite s
            \<and> exact (val u - val p) \<and> exact (val s - val r)
            \<and> exact ((val u - val p) * (val s - val r))
            \<and> exact (val q - val p) \<and> val q \<noteq> val p
            \<and> exact ((val u - val p) * (val s - val r) / (val q - val p))
            \<and> exact (val r + (val u - val p) * (val s - val r) / (val q - val p))
          \<longrightarrow> is_finite (mapToRange_double u p q r s)
              \<and> val (mapToRange_double u p q r s)
                  = val r + (val u - val p) * (val s - val r) / (val q - val p))
       \<and> mapToRange_double (Fin False 5) (Fin False 0) (Fin False 10) (Fin False 0) (Fin False 100)
           = Fin False 50
       \<and> (feq p q \<longrightarrow> \<not> is_finite (mapToRange_double u p q r s))"
proof (intro conjI impI)
  assume h: "is_int32 (x - a) \<and> is_int32 (d - c) \<and> is_int32 ((x - a) * (d - c))
            \<and> is_int32 (b - a) \<and> b \<noteq> a
            \<and> is_int32 (truncate_div ((x - a) * (d - c)) (b - a))
            \<and> is_int32 (c + truncate_div ((x - a) * (d - c)) (b - a))"
  then show "mapToRange_int x a b c d = Inr (c + truncate_div ((x - a) * (d - c)) (b - a))"
    by (intro mapToRange_int_exact) simp_all
  from h have "b - a \<noteq> 0" by simp
  from truncate_div_error [OF this, of "(x - a) * (d - c)"]
  show "\<bar>real_of_int (c + truncate_div ((x - a) * (d - c)) (b - a))
          - (real_of_int c + real_of_int ((x - a) * (d - c)) / real_of_int (b - a))\<bar> < 1"
    by simp
next
  show "mapToRange_int 5 0 10 0 100 = Inr 50"
    by (simp add: machine_simps)
next
  show "mapToRange_int x a a c d = Inl DivisionByZero"
    by (simp add: mapToRange_int_def int_sub_def int_div_def wrap32_def)
next
  assume h: "is_finite u \<and> is_finite p \<and> is_finite q \<and> is_finite r \<and> is_finite s
            \<and> exact (val u - val p) \<and> exact (val s - val r)
            \<and> exact ((val u - val p) * (val s - val r))
            \<and> exact (val q - val p) \<and> val q \<noteq> val p
            \<and> exact ((val u - val p) * (val s - val r) / (val q - val p))
            \<and> exact (val r + (val u - val p) * (val s - val r) / (val q - val p))"
  then have "is_finite (mapToRange_double u p q r s)
         \<and> val (mapToRange_double u p q r s)
             = val r + (val u - val p) * (val s - val r) / (val q - val p)"
    by (intro mapToRange_double_exact) simp_all
  then show "is_finite (mapToRange_double u p q r s)"
    and "val (mapToRange_double u p q r s)
             = val r + (val u - val p) * (val s - val r) / (val q - val p)"
    by simp_all
next
  show "mapToRange_double (Fin False 5) (Fin False 0) (Fin False 10) (Fin False 0) (Fin False 100)
           = Fin False 50"
    by (simp add: machine_simps)
next
  assume "feq p q"
  then show "\<not> is_finite (mapToRange_double u p q r s)"
    by (rule mapToRange_double_zero_divisor)
qed

theorem mapToRange_machine_witness:
  "is_int32 (7 - 0) \<and> is_int32 (1 - 0) \<and> is_int32 ((7 - 0) * (1 - 0)) \<and> is_int32 (2 - 0)
   \<and> (2::int) \<noteq> 0 \<and> is_int32 (truncate_div ((7 - 0) * (1 - 0)) (2 - 0))
   \<and> is_int32 (0 + truncate_div ((7 - 0) * (1 - 0)) (2 - 0))
   \<and> mapToRange_int 7 0 2 0 1 = Inr 3
   \<and> exact (val (Fin False 6) - val (Fin False 4)) \<and> exact (val (Fin False 9) - val (Fin False 1))
   \<and> exact ((val (Fin False 6) - val (Fin False 4)) * (val (Fin False 9) - val (Fin False 1)))
   \<and> exact (val (Fin False 8) - val (Fin False 4))
   \<and> val (mapToRange_double (Fin False 6) (Fin False 4) (Fin False 8) (Fin False 1) (Fin False 9)) = 5
   \<and> feq (Fin False 0) (Fin True 0)
   \<and> \<not> is_finite (mapToRange_double (Fin False 1) (Fin False 0) (Fin True 0) (Fin False 0) (Fin False 1))"
proof -
  have h: "is_int32 (7 - 0) \<and> is_int32 (1 - 0) \<and> is_int32 ((7 - 0) * (1 - 0)) \<and> is_int32 (2 - 0)
     \<and> (2::int) \<noteq> 0 \<and> is_int32 (truncate_div ((7 - 0) * (1 - 0)) (2 - 0))
     \<and> is_int32 (0 + truncate_div ((7 - 0) * (1 - 0)) (2 - 0))
     \<and> 0 + truncate_div ((7 - 0) * (1 - 0)) (2 - 0) = 3"
    by (simp add: machine_simps)
  have k: "is_finite (Fin False 6) \<and> is_finite (Fin False 4) \<and> is_finite (Fin False 8)
     \<and> is_finite (Fin False 1) \<and> is_finite (Fin False 9)
     \<and> exact (val (Fin False 6) - val (Fin False 4)) \<and> exact (val (Fin False 9) - val (Fin False 1))
     \<and> exact ((val (Fin False 6) - val (Fin False 4)) * (val (Fin False 9) - val (Fin False 1)))
     \<and> exact (val (Fin False 8) - val (Fin False 4)) \<and> val (Fin False 8) \<noteq> val (Fin False 4)
     \<and> exact ((val (Fin False 6) - val (Fin False 4)) * (val (Fin False 9) - val (Fin False 1))
          / (val (Fin False 8) - val (Fin False 4)))
     \<and> exact (val (Fin False 1) + (val (Fin False 6) - val (Fin False 4))
          * (val (Fin False 9) - val (Fin False 1)) / (val (Fin False 8) - val (Fin False 4)))
     \<and> val (Fin False 1) + (val (Fin False 6) - val (Fin False 4))
          * (val (Fin False 9) - val (Fin False 1)) / (val (Fin False 8) - val (Fin False 4)) = 5"
    by (simp add: machine_simps)
  have z: "feq (Fin False 0) (Fin True 0)"
    by simp
  note t1 = mapToRange_machine [where x = 7 and a = 0 and b = 2 and c = 0 and d = 1
      and u = "Fin False 6" and p = "Fin False 4" and q = "Fin False 8" and r = "Fin False 1"
      and s = "Fin False 9"]
  note t2 = mapToRange_machine [where x = 7 and a = 0 and b = 2 and c = 0 and d = 1
      and u = "Fin False 1" and p = "Fin False 0" and q = "Fin True 0" and r = "Fin False 0"
      and s = "Fin False 1"]
  have "mapToRange_int 7 0 2 0 1 = Inr (0 + truncate_div ((7 - 0) * (1 - 0)) (2 - 0))"
    using t1 h by blast
  then have 1: "mapToRange_int 7 0 2 0 1 = Inr 3"
    using h by simp
  have "val (mapToRange_double (Fin False 6) (Fin False 4) (Fin False 8) (Fin False 1) (Fin False 9))
      = val (Fin False 1) + (val (Fin False 6) - val (Fin False 4))
          * (val (Fin False 9) - val (Fin False 1)) / (val (Fin False 8) - val (Fin False 4))"
    using t1 k by blast
  then have 2: "val (mapToRange_double (Fin False 6) (Fin False 4) (Fin False 8) (Fin False 1) (Fin False 9)) = 5"
    using k by simp
  have 3: "\<not> is_finite (mapToRange_double (Fin False 1) (Fin False 0) (Fin True 0) (Fin False 0) (Fin False 1))"
    using t2 z by blast
  show ?thesis
    using h k z 1 2 3 by blast
qed

section \<open>Formatting a number and reading it back\<close>

subsection \<open>Decimal digits\<close>

lemma of_char_digit_char: "d < 10 \<Longrightarrow> (of_char (digit_char d) :: nat) = 48 + d"
  by (simp add: digit_char_def)

lemma isdigit_digit_char: "d < 10 \<Longrightarrow> isdigit (digit_char d)"
  by (simp add: isdigit_def of_char_digit_char)

lemma digit_value_digit_char: "d < 10 \<Longrightarrow> digit_value (digit_char d) = d"
  by (simp add: digit_value_def of_char_digit_char)

lemma length_digits: "length (digits k n) = k"
  by (induction k arbitrary: n) simp_all

lemma isdigit_digits: "c \<in> set (digits k n) \<Longrightarrow> isdigit c"
  by (induction k arbitrary: n) (auto simp: isdigit_digit_char)

lemma decimal_value_snoc: "decimal_value (ds @ [c]) = 10 * decimal_value ds + digit_value c"
  by (simp add: decimal_value_def)

lemma decimal_value_append:
  "decimal_value (xs @ ys) = decimal_value xs * 10 ^ length ys + decimal_value ys"
proof (induction ys rule: rev_induct)
  case Nil
  then show ?case by (simp add: decimal_value_def)
next
  case (snoc y ys)
  have "decimal_value (xs @ ys @ [y]) = 10 * decimal_value (xs @ ys) + digit_value y"
    using decimal_value_snoc [of "xs @ ys" y] by simp
  then show ?case
    by (simp add: snoc.IH decimal_value_snoc algebra_simps)
qed

lemma decimal_value_digits: "n < 10 ^ k \<Longrightarrow> decimal_value (digits k n) = n"
proof (induction k arbitrary: n)
  case 0
  then show ?case by (simp add: decimal_value_def)
next
  case (Suc k)
  then have "n div 10 < 10 ^ k"
    by (simp add: less_mult_imp_div_less mult.commute)
  then show ?case
    by (simp add: decimal_value_snoc Suc.IH digit_value_digit_char)
qed

lemma decimal_value_zeros: "decimal_value (replicate j CHR ''0'') = 0"
proof (induction j)
  case 0
  then show ?case by (simp add: decimal_value_def)
next
  case (Suc j)
  have "replicate (Suc j) CHR ''0'' = replicate j CHR ''0'' @ [CHR ''0'']"
    by (simp add: replicate_append_same)
  then show ?case
    by (simp only: decimal_value_snoc Suc.IH) (simp add: digit_value_def)
qed

lemma strip_zeros_append: "\<exists>j. ds = strip_zeros ds @ replicate j CHR ''0''"
proof -
  define r where "r = rev ds"
  have "r = takeWhile (\<lambda>c. c = CHR ''0'') r @ dropWhile (\<lambda>c. c = CHR ''0'') r"
    by simp
  moreover have "takeWhile (\<lambda>c. c = CHR ''0'') r = replicate (length (takeWhile (\<lambda>c. c = CHR ''0'') r)) CHR ''0''"
    by (rule replicate_length_same [symmetric]) (auto dest: set_takeWhileD)
  ultimately have "r = replicate (length (takeWhile (\<lambda>c. c = CHR ''0'') r)) CHR ''0''
      @ dropWhile (\<lambda>c. c = CHR ''0'') r"
    by simp
  then have "rev r = rev (dropWhile (\<lambda>c. c = CHR ''0'') r)
      @ replicate (length (takeWhile (\<lambda>c. c = CHR ''0'') r)) CHR ''0''"
    by (metis rev_append rev_replicate)
  then show ?thesis
    unfolding strip_zeros_def r_def by auto
qed

lemma set_strip_zeros: "c \<in> set (strip_zeros ds) \<Longrightarrow> c \<in> set ds"
  by (auto simp: strip_zeros_def dest: set_dropWhileD)

lemma stripped_value:
  "real (decimal_value (ip @ strip_zeros fp)) / 10 ^ length (strip_zeros fp)
     = real (decimal_value (ip @ fp)) / 10 ^ length fp"
proof -
  obtain j where j: "fp = strip_zeros fp @ replicate j CHR ''0''"
    using strip_zeros_append by blast
  define f where "f = strip_zeros fp"
  have fp: "fp = f @ replicate j CHR ''0''"
    using j by (simp add: f_def)
  have "decimal_value (ip @ fp) = decimal_value (ip @ f) * 10 ^ j"
    using decimal_value_append [of "ip @ f" "replicate j CHR ''0''"]
    by (simp add: fp decimal_value_zeros)
  moreover have "length fp = length f + j"
    by (subst fp) simp
  ultimately show ?thesis
    by (simp add: f_def [symmetric] power_add)
qed

subsection \<open>Parsing a decimal literal\<close>

lemma isdigit_not_other:
  assumes "isdigit c"
  shows "\<not> isspace c" "c \<noteq> CHR ''-''" "c \<noteq> CHR ''+''" "c \<noteq> CHR ''.''" "c \<noteq> CHR ''e''"
    "to_lower c = c" "c \<noteq> CHR ''i''" "c \<noteq> CHR ''n''"
  using assms by (auto simp: isdigit_def isspace_def to_lower_def)

lemma takeWhile_digits:
  assumes "\<forall>c\<in>set ds. isdigit c" and "r = [] \<or> \<not> isdigit (hd r)"
  shows "takeWhile isdigit (ds @ r) = ds" and "dropWhile isdigit (ds @ r) = r"
proof -
  have r: "takeWhile isdigit r = []" "dropWhile isdigit r = r"
    using assms(2) by (cases r; simp)+
  show "takeWhile isdigit (ds @ r) = ds"
    using assms(1) by (simp add: takeWhile_append2 r)
  show "dropWhile isdigit (ds @ r) = r"
    using assms(1) by (simp add: dropWhile_append2 r)
qed

lemma read_sign_literal:
  assumes "ip \<noteq> []" and "\<forall>c\<in>set ip. isdigit c"
  shows "read_sign (dropWhile isspace ((if neg then ''-'' else []) @ ip @ rest)) = (neg, ip @ rest)"
proof -
  obtain c cs where ip: "ip = c # cs"
    using assms(1) by (cases ip) simp_all
  then have c: "isdigit c"
    using assms(2) by simp
  show ?thesis
    using isdigit_not_other [OF c]
    by (cases neg) (simp_all add: ip read_sign_def isspace_def)
qed

lemma stod_literal:
  assumes "ip \<noteq> []" and "\<forall>c\<in>set ip. isdigit c" and "\<forall>c\<in>set fp. isdigit c"
    and "tail = [] \<or> hd tail = CHR ''e''"
  shows "stod ((if neg then ''-'' else []) @ ip @ (if fp = [] then [] else CHR ''.'' # fp) @ tail)
           = Inr ((if neg then - 1 else 1)
                  * scale10 (real (decimal_value (ip @ fp)) / 10 ^ length fp) (read_exponent tail))"
proof -
  define frac where "frac = (if fp = [] then [] else CHR ''.'' # fp)"
  have tail_nd: "tail = [] \<or> \<not> isdigit (hd tail)"
    using assms(4) isdigit_not_other(5) by auto
  have nd: "frac @ tail = [] \<or> \<not> isdigit (hd (frac @ tail))"
    using tail_nd isdigit_not_other(4) by (auto simp: frac_def)
  have rs: "read_sign (dropWhile isspace ((if neg then ''-'' else []) @ ip @ frac @ tail))
      = (neg, ip @ frac @ tail)"
    by (rule read_sign_literal [OF assms(1,2)])
  have tw: "takeWhile isdigit (ip @ frac @ tail) = ip"
    and dw: "dropWhile isdigit (ip @ frac @ tail) = frac @ tail"
    using takeWhile_digits [OF assms(2) nd] by simp_all
  have rf: "read_fraction (frac @ tail) = (fp, tail)"
  proof (cases "fp = []")
    case True
    then show ?thesis
      using assms(4) by (cases tail) (auto simp: frac_def read_fraction_def)
  next
    case False
    then show ?thesis
      using takeWhile_digits [OF assms(3) tail_nd] by (simp add: frac_def read_fraction_def)
  qed
  show ?thesis
    unfolding frac_def [symmetric] stod_def rs using assms(1) by (simp add: Let_def tw dw rf)
qed

lemma read_exponent_literal:
  assumes "ed \<noteq> []" and "\<forall>c\<in>set ed. isdigit c"
  shows "read_exponent (CHR ''e'' # (if neg then CHR ''-'' else CHR ''+'') # ed)
           = (if neg then - int (decimal_value ed) else int (decimal_value ed))"
proof -
  have tw: "takeWhile isdigit ed = ed"
    using assms(2) by simp
  show ?thesis
    using assms(1) by (simp add: read_exponent_def read_sign_def Let_def tw)
qed

lemma not_special_literal:
  assumes "ip \<noteq> []" and "\<forall>c\<in>set ip. isdigit c"
  shows "map to_lower (take 3 (ip @ rest)) \<noteq> ''inf''" "map to_lower (take 3 (ip @ rest)) \<noteq> ''nan''"
proof -
  obtain c cs where ip: "ip = c # cs"
    using assms(1) by (cases ip) simp_all
  then have c: "isdigit c"
    using assms(2) by simp
  show "map to_lower (take 3 (ip @ rest)) \<noteq> ''inf''" "map to_lower (take 3 (ip @ rest)) \<noteq> ''nan''"
    using isdigit_not_other [OF c] by (simp_all add: ip)
qed

lemma pow10_powi: "pow10 e = 10 powi e"
  by (simp add: pow10_def power_int_def inverse_eq_divide power_one_over)

lemma pow10_add: "pow10 (a + b) = pow10 a * pow10 b"
  by (simp add: pow10_powi power_int_add)

lemma pow10_pos: "0 < pow10 e"
  by (simp add: pow10_def)

lemma pow10_nat: "pow10 (int k) = 10 ^ k"
  by (simp add: pow10_def)

lemma pow10_neg_nat: "pow10 (- int k) = 1 / 10 ^ k"
  by (simp add: pow10_powi power_int_minus inverse_eq_divide)

lemma scale10_pow10: "scale10 x e = x * pow10 e"
  by (simp add: scale10_def pow10_def)

lemma pow10_shift: "pow10 (X - 5) = pow10 X / 10 ^ 5"
proof -
  have "pow10 (X - 5) = pow10 (X + - int 5)"
    by simp
  also have "\<dots> = pow10 X * (1 / 10 ^ 5)"
    unfolding pow10_add pow10_neg_nat ..
  finally show ?thesis by simp
qed

lemma fraction_eq:
  "fraction ds = (if strip_zeros ds = [] then [] else CHR ''.'' # strip_zeros ds)"
  by (simp add: fraction_def Let_def)

lemma isdigit_strip_zeros: "\<forall>c\<in>set ds. isdigit c \<Longrightarrow> \<forall>c\<in>set (strip_zeros ds). isdigit c"
  by (auto dest: set_strip_zeros)

lemma exponent_digits_value:
  assumes "e < 1000"
  shows "decimal_value (exponent_digits e) = e" "exponent_digits e \<noteq> []"
    "\<forall>c\<in>set (exponent_digits e). isdigit c"
proof -
  show "decimal_value (exponent_digits e) = e"
    using assms by (simp add: exponent_digits_def decimal_value_digits)
  show "exponent_digits e \<noteq> []"
    using length_digits [of 2 e] length_digits [of 3 e]
    by (auto simp: exponent_digits_def simp del: digits.simps)
  show "\<forall>c\<in>set (exponent_digits e). isdigit c"
    by (auto simp: exponent_digits_def dest: isdigit_digits)
qed

lemma digits6:
  assumes "100000 \<le> n" and "n \<le> 999999"
  shows "decimal_value (digits 6 (nat n)) = nat n" "length (digits 6 (nat n)) = 6"
    "\<forall>c\<in>set (digits 6 (nat n)). isdigit c"
proof -
  have "nat n < 10 ^ 6"
    using assms by simp
  then show "decimal_value (digits 6 (nat n)) = nat n"
    by (rule decimal_value_digits)
  show "length (digits 6 (nat n)) = 6"
    by (rule length_digits)
  show "\<forall>c\<in>set (digits 6 (nat n)). isdigit c"
    by (auto dest: isdigit_digits)
qed

lemma parse_format_e:
  assumes "100000 \<le> n" and "n \<le> 999999" and "\<bar>X\<bar> < 1000"
  shows "stod ((if neg then ''-'' else []) @ format_e n X)
           = Inr ((if neg then - 1 else 1) * (real_of_int n * pow10 (X - 5)))"
proof -
  define ds where "ds = digits 6 (nat n)"
  define ip where "ip = take 1 ds"
  define fp where "fp = strip_zeros (drop 1 ds)"
  define ed where "ed = exponent_digits (nat \<bar>X\<bar>)"
  define tail where "tail = CHR ''e'' # (if X < 0 then CHR ''-'' else CHR ''+'') # ed"
  note d = digits6 [OF assms(1,2), folded ds_def]
  have e: "nat \<bar>X\<bar> < 1000"
    using assms(3) by simp
  note ex = exponent_digits_value [OF e, folded ed_def]
  have fmt: "format_e n X = ip @ (if fp = [] then [] else CHR ''.'' # fp) @ tail"
    by (simp add: format_e_def Let_def ds_def [symmetric] ip_def fp_def fraction_eq tail_def ed_def)
  have ip: "ip \<noteq> []" "\<forall>c\<in>set ip. isdigit c"
    using d(2,3) by (auto simp: ip_def dest: in_set_takeD)
  have fp: "\<forall>c\<in>set fp. isdigit c"
    unfolding fp_def using d(3) by (intro isdigit_strip_zeros) (auto dest: in_set_dropD)
  have tl: "tail = [] \<or> hd tail = CHR ''e''"
    by (simp add: tail_def)
  have re: "read_exponent tail = X"
    unfolding tail_def read_exponent_literal [OF ex(2,3)] ex(1) by simp
  have "real (decimal_value (ip @ fp)) / 10 ^ length fp
      = real (decimal_value (ip @ drop 1 ds)) / 10 ^ length (drop 1 ds)"
    unfolding fp_def by (rule stripped_value)
  also have "\<dots> = real_of_int n / 10 ^ 5"
    using d(1,2) assms(1) by (simp add: ip_def)
  finally have mant: "real (decimal_value (ip @ fp)) / 10 ^ length fp = real_of_int n / 10 ^ 5" .
  show ?thesis
    unfolding fmt stod_literal [OF ip fp tl] re mant scale10_pow10 pow10_shift by simp
qed

lemma parse_format_f:
  assumes "100000 \<le> n" and "n \<le> 999999" and "- 4 \<le> X" and "X \<le> 5"
  shows "stod ((if neg then ''-'' else []) @ format_f n X)
           = Inr ((if neg then - 1 else 1) * (real_of_int n * pow10 (X - 5)))"
proof (cases "0 \<le> X")
  case True
  define ds where "ds = digits 6 (nat n)"
  define k where "k = nat X + 1"
  define ip where "ip = take k ds"
  define fp where "fp = strip_zeros (drop k ds)"
  note d = digits6 [OF assms(1,2), folded ds_def]
  have k: "1 \<le> k" "k \<le> 6" "int k = X + 1"
    using True assms(4) by (simp_all add: k_def)
  have fmt: "format_f n X = ip @ (if fp = [] then [] else CHR ''.'' # fp) @ []"
    using True
    by (simp add: format_f_def Let_def ds_def [symmetric] ip_def fp_def fraction_eq k_def)
  have ip: "ip \<noteq> []" "\<forall>c\<in>set ip. isdigit c"
    using d(2,3) k by (auto simp: ip_def dest: in_set_takeD)
  have fp: "\<forall>c\<in>set fp. isdigit c"
    unfolding fp_def using d(3) by (intro isdigit_strip_zeros) (auto dest: in_set_dropD)
  have "real (decimal_value (ip @ fp)) / 10 ^ length fp
      = real (decimal_value (ip @ drop k ds)) / 10 ^ length (drop k ds)"
    unfolding fp_def by (rule stripped_value)
  also have "\<dots> = real_of_int n / 10 ^ (6 - k)"
    using d(1,2) assms(1) by (simp add: ip_def)
  also have "\<dots> = real_of_int n * pow10 (- int (6 - k))"
    unfolding pow10_neg_nat by simp
  also have "- int (6 - k) = X - 5"
    using k by simp
  finally have mant: "real (decimal_value (ip @ fp)) / 10 ^ length fp = real_of_int n * pow10 (X - 5)" .
  show ?thesis
    unfolding fmt stod_literal [OF ip fp disjI1 [OF refl]] mant
    by (simp add: read_exponent_def scale10_def)
next
  case False
  define ds where "ds = digits 6 (nat n)"
  define k where "k = nat (- X - 1)"
  define fp where "fp = strip_zeros (replicate k CHR ''0'' @ ds)"
  note d = digits6 [OF assms(1,2), folded ds_def]
  have k: "int k = - X - 1"
    using False by (simp add: k_def)
  have fmt: "format_f n X = ''0'' @ (if fp = [] then [] else CHR ''.'' # fp) @ []"
    using False
    by (simp add: format_f_def Let_def ds_def [symmetric] fp_def fraction_eq k_def)
  have zero: "isdigit CHR ''0''"
    by (simp add: isdigit_def)
  have ip: "''0'' \<noteq> []" "\<forall>c\<in>set ''0''. isdigit c"
    using zero by simp_all
  have fp: "\<forall>c\<in>set fp. isdigit c"
    unfolding fp_def using d(3) zero by (intro isdigit_strip_zeros) auto
  have dv: "decimal_value (CHR ''0'' # replicate k CHR ''0'' @ ds) = nat n"
    using decimal_value_append [of "replicate (Suc k) CHR ''0''" ds]
      decimal_value_zeros [of "Suc k"] d(1)
    by simp
  have "real (decimal_value (''0'' @ fp)) / 10 ^ length fp
      = real (decimal_value (''0'' @ replicate k CHR ''0'' @ ds))
          / 10 ^ length (replicate k CHR ''0'' @ ds)"
    unfolding fp_def by (rule stripped_value)
  also have "\<dots> = real_of_int n / 10 ^ (k + 6)"
    using d(2) assms(1) by (simp add: dv)
  also have "\<dots> = real_of_int n * pow10 (- int (k + 6))"
    unfolding pow10_neg_nat by simp
  also have "- int (k + 6) = X - 5"
    using k by simp
  finally have mant: "real (decimal_value (''0'' @ fp)) / 10 ^ length fp = real_of_int n * pow10 (X - 5)" .
  show ?thesis
    unfolding fmt stod_literal [OF ip fp disjI1 [OF refl]] mant
    by (simp add: read_exponent_def scale10_def)
qed

subsection \<open>Decades\<close>

lemma pow10_mono: "a \<le> b \<Longrightarrow> pow10 a \<le> pow10 b"
  by (simp add: pow10_powi power_int_increasing)

lemma tenths_le: "tenths k v \<le> k"
  by (induction k arbitrary: v) auto

lemma tenths_lower: "1 \<le> v \<Longrightarrow> 10 ^ tenths k v \<le> v"
proof (induction k arbitrary: v)
  case 0
  then show ?case by simp
next
  case (Suc k)
  show ?case
  proof (cases "v < 10")
    case True
    with Suc.prems show ?thesis by simp
  next
    case False
    then have "1 \<le> v / 10" by simp
    from Suc.IH [OF this] have "10 ^ tenths k (v / 10) \<le> v / 10" .
    with False show ?thesis by simp
  qed
qed

lemma tenths_upper: "v < 10 ^ Suc k \<Longrightarrow> v < 10 ^ Suc (tenths k v)"
proof (induction k arbitrary: v)
  case 0
  then show ?case by simp
next
  case (Suc k)
  show ?case
  proof (cases "v < 10")
    case True
    then show ?thesis by simp
  next
    case False
    from Suc.prems have "v / 10 < 10 ^ Suc k" by simp
    from Suc.IH [OF this] have "v / 10 < 10 ^ Suc (tenths k (v / 10))" .
    with False show ?thesis by simp
  qed
qed

lemma tens_upper: "v < 1 \<Longrightarrow> v * 10 ^ tens k v < 10"
proof (induction k arbitrary: v)
  case 0
  then show ?case by simp
next
  case (Suc k)
  show ?case
  proof (cases "10 * v < 1")
    case True
    from Suc.IH [OF this] Suc.prems show ?thesis
      by (simp add: mult.assoc mult.left_commute)
  next
    case False
    then have "tens k (10 * v) = 0"
      by (cases k) simp_all
    with Suc.prems show ?thesis by simp
  qed
qed

lemma tens_lower: "1 / 10 ^ k \<le> v \<Longrightarrow> 1 \<le> v * 10 ^ tens k v"
proof (induction k arbitrary: v)
  case 0
  then show ?case by simp
next
  case (Suc k)
  show ?case
  proof (cases "1 \<le> v")
    case True
    then show ?thesis by simp
  next
    case False
    from Suc.prems have "1 / 10 ^ k \<le> 10 * v"
      by (simp add: field_simps)
    from Suc.IH [OF this] False show ?thesis
      by (simp add: mult.assoc mult.left_commute)
  qed
qed

lemma decade_bounds:
  assumes "1 / 10 ^ 307 \<le> v" and "v < 2 ^ 1024"
  shows "pow10 (decade v) \<le> v" "v < pow10 (decade v + 1)" "- 307 \<le> decade v" "decade v \<le> 308"
proof -
  have big: "(2::real) ^ 1024 \<le> 10 ^ Suc 308"
    by simp
  have "pow10 (decade v) \<le> v \<and> v < pow10 (decade v + 1) \<and> - 307 \<le> decade v \<and> decade v \<le> 308"
  proof (cases "1 \<le> v")
    case True
    define t where "t = tenths 308 v"
    have X: "decade v = int t"
      using True by (simp add: decade_def t_def)
    have "v < 10 ^ Suc 308"
      using assms(2) big by linarith
    then have "v < 10 ^ Suc t"
      unfolding t_def by (rule tenths_upper)
    then have up: "v < pow10 (int (Suc t))"
      by (simp only: pow10_nat)
    have lo: "pow10 (int t) \<le> v"
      unfolding pow10_nat t_def by (rule tenths_lower [OF True])
    have le: "t \<le> 308"
      unfolding t_def by (rule tenths_le)
    have "v < pow10 (decade v + 1)"
      using up X by (simp add: add.commute)
    then show ?thesis
      using lo X le by simp
  next
    case False
    define d where "d = tens 324 v"
    have X: "decade v = - int d"
      using False by (simp add: decade_def d_def)
    have v: "v < 1" "0 < v"
      using False assms(1) by (simp_all add: less_le_trans [OF _ assms(1)])
    have "1 / 10 ^ 324 \<le> (1::real) / 10 ^ 307"
      by simp
    then have "1 / 10 ^ 324 \<le> v"
      using assms(1) by linarith
    then have l: "1 \<le> v * 10 ^ d"
      unfolding d_def by (rule tens_lower)
    have u: "v * 10 ^ d < 10"
      unfolding d_def by (rule tens_upper [OF v(1)])
    have lo: "pow10 (- int d) \<le> v"
      unfolding pow10_neg_nat using l by (simp add: field_simps)
    have "pow10 (- int d + 1) = pow10 (- int d) * 10"
      unfolding pow10_add by (simp add: pow10_def)
    also have "\<dots> = 10 / 10 ^ d"
      unfolding pow10_neg_nat by simp
    finally have nd: "pow10 (- int d + 1) = 10 / 10 ^ d" .
    have up: "v < pow10 (- int d + 1)"
      unfolding nd using u by (simp add: pos_less_divide_eq)
    have "(10::real) ^ d * (1 / 10 ^ 307) \<le> 10 ^ d * v"
      using assms(1) by (intro mult_left_mono) simp_all
    also have "\<dots> < 10"
      using u by (simp add: mult.commute)
    finally have "(10::real) ^ d < 10 ^ 308"
      by (simp add: field_simps)
    then have "d < 308"
      by (simp only: power_strict_increasing_iff [of "10::real"])
    show ?thesis
      using lo up X \<open>d < 308\<close> by simp
  qed
  then show "pow10 (decade v) \<le> v" "v < pow10 (decade v + 1)" "- 307 \<le> decade v" "decade v \<le> 308"
    by simp_all
qed

subsection \<open>Six significant digits\<close>

lemma round_half_even_ge:
  assumes "of_int n \<le> x"
  shows "n \<le> round_half_even x"
proof -
  have "n \<le> \<lfloor>x\<rfloor>"
    using assms by (simp add: le_floor_iff)
  with round_half_even_cases [of x] show ?thesis by auto
qed

lemma significand6_bounds:
  assumes "1 / 10 ^ 307 \<le> v" and "v < 2 ^ 1024" and "significand6 v = (n, X)"
  shows "100000 \<le> n" "n \<le> 999999" "- 307 \<le> X" "X \<le> 309"
    "\<bar>real_of_int n * pow10 (X - 5) - v\<bar> \<le> v / 200000"
    "real_of_int n * pow10 (X - 5) \<le> 179769 * 10 ^ 303"
proof -
  define D where "D = decade v"
  define w where "w = v / pow10 (D - 5)"
  define k where "k = round_half_even w"
  note db = decade_bounds [OF assms(1,2), folded D_def]
  have pp: "0 < pow10 (D - 5)" "0 < pow10 D"
    by (rule pow10_pos)+
  have shift: "pow10 (D - 5) = pow10 D / 10 ^ 5"
    by (rule pow10_shift)
  have next_decade: "pow10 (D + 1) = pow10 D * 10"
    unfolding pow10_add by (simp add: pow10_def)
  have w_lo: "100000 \<le> w"
    unfolding w_def shift using db(1) pp(2) by (simp add: field_simps)
  have w_hi: "w < 1000000"
    unfolding w_def shift using db(2) pp(2) unfolding next_decade by (simp add: field_simps)
  have k_lo: "100000 \<le> k"
    unfolding k_def using w_lo by (intro round_half_even_ge) simp
  have k_hi: "k \<le> 1000000"
    unfolding k_def using w_hi by (intro round_half_even_le) simp
  have k_err: "\<bar>real_of_int k - w\<bar> \<le> 1 / 2"
    unfolding k_def by (rule round_half_even_error)
  have sig: "(n, X) = (if k = 1000000 then (100000, D + 1) else (k, D))"
    using assms(3) by (auto simp: significand6_def Let_def D_def w_def k_def split: if_splits)
  have same: "real_of_int n * pow10 (X - 5) = real_of_int k * pow10 (D - 5)"
  proof (cases "k = 1000000")
    case True
    then have "n = 100000" "X = D + 1"
      using sig by simp_all
    moreover have "pow10 (D + 1 - 5) = pow10 (D - 5) * 10"
      using pow10_add [of "D - 5" 1] by (simp add: pow10_def)
    ultimately show ?thesis
      using True by simp
  next
    case False
    then show ?thesis
      using sig by simp
  qed
  show "100000 \<le> n" "n \<le> 999999" "- 307 \<le> X" "X \<le> 309"
    using sig k_lo k_hi db(3,4) by (auto split: if_splits)
  have "real_of_int k * pow10 (D - 5) - v = (real_of_int k - w) * pow10 (D - 5)"
    unfolding w_def using pp(1) by (simp add: field_simps)
  then have "\<bar>real_of_int k * pow10 (D - 5) - v\<bar> = \<bar>real_of_int k - w\<bar> * pow10 (D - 5)"
    using pp(1) by (simp add: abs_mult)
  also have "\<dots> \<le> 1 / 2 * pow10 (D - 5)"
    using k_err pp(1) by (intro mult_right_mono) simp_all
  also have "\<dots> = pow10 D / 200000"
    unfolding shift by simp
  also have "\<dots> \<le> v / 200000"
    using db(1) by simp
  finally show "\<bar>real_of_int n * pow10 (X - 5) - v\<bar> \<le> v / 200000"
    unfolding same .
  show "real_of_int n * pow10 (X - 5) \<le> 179769 * 10 ^ 303"
  proof (cases "D \<le> 307")
    case True
    have "real_of_int k * pow10 (D - 5) \<le> 1000000 * pow10 (D - 5)"
      using k_hi pp(1) by (intro mult_right_mono) simp_all
    also have "\<dots> = 10 * pow10 D"
      unfolding shift by simp
    also have "\<dots> \<le> 10 * pow10 307"
      using pow10_mono [OF True] by simp
    also have "\<dots> \<le> 179769 * 10 ^ 303"
      by (simp add: pow10_def)
    finally show ?thesis
      unfolding same .
  next
    case False
    with db(4) have D: "D = 308" by simp
    have p: "pow10 (D - 5) = 10 ^ 303"
      by (simp add: D pow10_def)
    have "(2::real) ^ 1024 < (179769 + 1 / 2) * 10 ^ 303"
      by simp
    with assms(2) have "v < (179769 + 1 / 2) * 10 ^ 303"
      by linarith
    then have "w < 179769 + 1 / 2"
      unfolding w_def p by (simp add: field_simps)
    with k_err have "real_of_int k < 179769 + 1"
      by linarith
    then have "k \<le> 179769"
      by linarith
    then have "real_of_int k * 10 ^ 303 \<le> 179769 * 10 ^ 303"
      by (intro mult_right_mono) simp_all
    then show ?thesis
      unfolding same p .
  qed
qed

subsection \<open>The rounding error of a double\<close>

lemma halvings_lower: "1 \<le> v \<Longrightarrow> 2 ^ halvings k v \<le> v"
proof (induction k arbitrary: v)
  case 0
  then show ?case by simp
next
  case (Suc k)
  show ?case
  proof (cases "v < 2")
    case True
    with Suc.prems show ?thesis by simp
  next
    case False
    then have "1 \<le> v / 2" by simp
    from Suc.IH [OF this] False show ?thesis by simp
  qed
qed

lemma doublings_lower: "1 / 2 ^ k \<le> v \<Longrightarrow> 1 \<le> v * 2 ^ doublings k v"
proof (induction k arbitrary: v)
  case 0
  then show ?case by simp
next
  case (Suc k)
  show ?case
  proof (cases "1 \<le> v")
    case True
    then show ?thesis by simp
  next
    case False
    from Suc.prems have "1 / 2 ^ k \<le> 2 * v"
      by (simp add: field_simps)
    from Suc.IH [OF this] False show ?thesis
      by (simp add: mult.assoc mult.left_commute)
  qed
qed

lemma binade_lower:
  assumes "1 / 2 ^ 1022 \<le> v"
  shows "pow2 (binade v) \<le> v"
proof (cases "1 \<le> v")
  case True
  then show ?thesis
    using halvings_lower [OF True, of 1023] by (simp add: binade_def pow2_nat)
next
  case False
  define d where "d = doublings 1022 v"
  have "1 \<le> v * 2 ^ d"
    unfolding d_def using assms by (rule doublings_lower)
  then have "1 / 2 ^ d \<le> v"
    by (simp add: field_simps)
  moreover have "pow2 (- int d) = 1 / 2 ^ d"
    by (simp add: pow2_powi power_int_minus inverse_eq_divide)
  ultimately show ?thesis
    using False by (simp add: binade_def d_def)
qed

lemma round_mag_error:
  assumes "1 / 2 ^ 1022 \<le> v"
  shows "\<bar>round_mag v - v\<bar> \<le> v / 2 ^ 53"
proof -
  define q where "q = quantum v"
  have q: "0 < q"
    unfolding q_def by (rule quantum_pos)
  have "q = pow2 (binade v + - int 52)"
    by (simp add: q_def quantum_def)
  also have "\<dots> = pow2 (binade v) * (1 / 2 ^ 52)"
    unfolding pow2_add by (simp add: pow2_powi power_int_minus inverse_eq_divide)
  finally have "q \<le> v / 2 ^ 52"
    using binade_lower [OF assms] by simp
  moreover have "round_mag v - v = (of_int (round_half_even (v / q)) - v / q) * q"
    using q by (simp add: round_mag_def q_def field_simps)
  then have "\<bar>round_mag v - v\<bar> = \<bar>of_int (round_half_even (v / q)) - v / q\<bar> * q"
    using q by (simp add: abs_mult)
  then have "\<bar>round_mag v - v\<bar> \<le> 1 / 2 * q"
    using round_half_even_error [of "v / q"] q by (simp add: mult_right_mono)
  ultimately show ?thesis
    by simp
qed

lemma digits6_head:
  "\<exists>c cs. digits 6 k = c # cs \<and> isdigit c"
proof -
  have "length (digits 6 k) = 6"
    by (rule length_digits)
  then obtain c cs where "digits 6 k = c # cs"
    by (cases "digits 6 k") simp_all
  moreover from this have "isdigit c"
    using isdigit_digits [of c 6 k] by simp
  ultimately show ?thesis by blast
qed

lemma format_g_head: "\<exists>c cs. format_g v = c # cs \<and> isdigit c"
proof (cases "v = 0")
  case True
  then show ?thesis
    by (simp add: format_g_def isdigit_def)
next
  case False
  obtain n X where sig: "significand6 v = (n, X)"
    by (cases "significand6 v")
  obtain c cs where ds: "digits 6 (nat n) = c # cs" "isdigit c"
    using digits6_head by blast
  have zero: "isdigit CHR ''0''"
    by (simp add: isdigit_def)
  show ?thesis
  proof (cases "X < - 4 \<or> 6 \<le> X")
    case True
    then have "format_g v = c # (fraction cs @ ''e'' @ (if X < 0 then ''-'' else ''+'')
        @ exponent_digits (nat \<bar>X\<bar>))"
      using False sig by (simp add: format_g_def format_e_def Let_def ds(1))
    with ds(2) show ?thesis by blast
  next
    case e: False
    show ?thesis
    proof (cases "0 \<le> X")
      case True
      then have "format_g v = c # (take (nat X) cs @ fraction (drop (nat X) cs))"
        using False sig e by (simp add: format_g_def format_f_def Let_def ds(1))
      with ds(2) show ?thesis by blast
    next
      case neg: False
      then have "format_g v = CHR ''0'' # fraction (replicate (nat (- X - 1)) CHR ''0'' @ c # cs)"
        using False sig e by (simp add: format_g_def format_f_def Let_def ds(1))
      with zero show ?thesis by blast
    qed
  qed
qed

lemma format_g_parse:
  assumes "1 / 10 ^ 307 \<le> v" and "v < 2 ^ 1024" and "significand6 v = (n, X)"
  shows "stod ((if neg then ''-'' else []) @ format_g v)
           = Inr ((if neg then - 1 else 1) * (real_of_int n * pow10 (X - 5)))"
proof -
  note b = significand6_bounds [OF assms]
  have "0 < v"
    using assms(1) by (simp add: less_le_trans [OF _ assms(1)])
  then have v: "v \<noteq> 0" by simp
  show ?thesis
  proof (cases "X < - 4 \<or> 6 \<le> X")
    case True
    have "\<bar>X\<bar> < 1000"
      using b(3,4) by simp
    from parse_format_e [OF b(1,2) this, of neg] show ?thesis
      using True v by (simp add: format_g_def assms(3))
  next
    case False
    then have "- 4 \<le> X" "X \<le> 5" by simp_all
    from parse_format_f [OF b(1,2) this, of neg] show ?thesis
      using False v by (simp add: format_g_def assms(3))
  qed
qed

lemma StringToNumber_double_literal:
  assumes "str = (if neg then ''-'' else []) @ c # cs" and "isdigit c"
    and "stod str = Inr v" and "round_mag \<bar>v\<bar> < 2 ^ 1024"
    and "\<bar>v\<bar> = 0 \<or> 1 / 2 ^ 1022 \<le> \<bar>v\<bar>"
  shows "StringToNumber_double str = Inr (Fin neg (round_mag \<bar>v\<bar>))"
proof -
  have ip: "[c] \<noteq> []" "\<forall>x\<in>set [c]. isdigit x"
    using assms(2) by simp_all
  have rs: "read_sign (dropWhile isspace str) = (neg, c # cs)"
    using read_sign_literal [OF ip, of neg cs] by (simp add: assms(1))
  have ns: "map to_lower (take 3 (c # cs)) \<noteq> ''inf''" "map to_lower (take 3 (c # cs)) \<noteq> ''nan''"
    using not_special_literal [OF ip, of cs] by simp_all
  have tiny: "\<not> (\<bar>v\<bar> < pow2 (- 1022) \<and> round_mag \<bar>v\<bar> \<noteq> \<bar>v\<bar>)"
    using assms(5) by (auto simp: pow2_def round_mag_zero)
  have rd: "round_double neg \<bar>v\<bar> = Fin neg (round_mag \<bar>v\<bar>)"
    using assms(4) by (simp add: round_double_def)
  show ?thesis
    unfolding StringToNumber_double_def rs using ns tiny
    by (simp add: Let_def assms(3) rd del: take_Suc_Cons)
qed

lemma round_trip_positive:
  assumes "1 / 10 ^ 307 \<le> m" and "m < 2 ^ 1024"
  shows "\<exists>y. StringToNumber_double (NumberToString (Fin s m)) = Inr (Fin s y)
            \<and> \<bar>y - m\<bar> \<le> m / 100000 \<and> y \<noteq> 0"
proof -
  obtain n X where sig: "significand6 m = (n, X)"
    by (cases "significand6 m")
  note b = significand6_bounds [OF assms sig]
  define dv where "dv = real_of_int n * pow10 (X - 5)"
  have m: "0 < m"
    using assms(1) by (simp add: less_le_trans [OF _ assms(1)])
  have dv_err: "\<bar>dv - m\<bar> \<le> m / 200000"
    using b(5) by (simp add: dv_def)
  have dv_hi: "dv \<le> 179769 * 10 ^ 303"
    using b(6) by (simp add: dv_def)
  have dv_lo: "m / 2 \<le> dv"
    using dv_err m by linarith
  have "(1::real) / 2 ^ 1022 \<le> (1 / 10 ^ 307) / 2"
    by simp
  also have "\<dots> \<le> m / 2"
    using assms(1) by simp
  finally have normal: "1 / 2 ^ 1022 \<le> dv"
    using dv_lo by linarith
  have dv_pos: "0 < dv"
    using dv_lo m by linarith
  define y where "y = round_mag dv"
  have y_err: "\<bar>y - dv\<bar> \<le> dv / 2 ^ 53"
    unfolding y_def by (rule round_mag_error [OF normal])
  have "y \<le> dv + dv / 2 ^ 53"
    using y_err by linarith
  also have "\<dots> \<le> 179769 * 10 ^ 303 + 179769 * 10 ^ 303 / 2 ^ 53"
    using dv_hi by (intro add_mono divide_right_mono) simp_all
  also have "\<dots> < 2 ^ 1024"
    by simp
  finally have y_fin: "y < 2 ^ 1024" .
  obtain c cs where head: "format_g m = c # cs" "isdigit c"
    using format_g_head by blast
  have str: "NumberToString (Fin s m) = (if s then ''-'' else []) @ c # cs"
    by (simp add: NumberToString_def head(1))
  have parsed: "stod (NumberToString (Fin s m)) = Inr ((if s then - 1 else 1) * dv)"
    using format_g_parse [OF assms sig, of s] by (simp add: NumberToString_def dv_def)
  have abs: "\<bar>(if s then - 1 else 1) * dv\<bar> = dv"
    using dv_pos by simp
  have "StringToNumber_double (NumberToString (Fin s m))
      = Inr (Fin s (round_mag \<bar>(if s then - 1 else 1) * dv\<bar>))"
    using str head(2) parsed
  proof (rule StringToNumber_double_literal)
    show "round_mag \<bar>(if s then - 1 else 1) * dv\<bar> < 2 ^ 1024"
      unfolding abs using y_fin by (simp add: y_def)
    show "\<bar>(if s then - 1 else 1) * dv\<bar> = 0 \<or> 1 / 2 ^ 1022 \<le> \<bar>(if s then - 1 else 1) * dv\<bar>"
      unfolding abs using normal by simp
  qed
  then have res: "StringToNumber_double (NumberToString (Fin s m)) = Inr (Fin s y)"
    unfolding abs y_def .
  have "dv \<le> 2 * m"
    using dv_err m by linarith
  then have "dv / 2 ^ 53 \<le> m / 2 ^ 52"
    by simp
  also have "\<dots> \<le> m / 200000"
    using m by (intro divide_left_mono) simp_all
  finally have "\<bar>y - dv\<bar> \<le> m / 200000"
    using y_err by linarith
  with dv_err have close: "\<bar>y - m\<bar> \<le> m / 100000"
    by linarith
  then have "y \<noteq> 0"
    using m by linarith
  with res close show ?thesis by blast
qed

lemma round_trip_zero:
  "StringToNumber_double (NumberToString (Fin s 0)) = Inr (Fin s 0)"
proof -
  have str: "NumberToString (Fin s 0) = (if s then ''-'' else []) @ CHR ''0'' # []"
    by (simp add: NumberToString_def format_g_def)
  have zero: "isdigit CHR ''0''"
    by (simp add: isdigit_def)
  have "[CHR ''0''] \<noteq> []" "\<forall>c\<in>set [CHR ''0'']. isdigit c" "\<forall>c\<in>set []. isdigit c"
    using zero by simp_all
  from stod_literal [OF this disjI1 [OF refl], of s]
  have parsed: "stod (NumberToString (Fin s 0)) = Inr 0"
    by (simp add: str decimal_value_def digit_value_def read_exponent_def scale10_def)
  show ?thesis
    using StringToNumber_double_literal [OF str zero parsed] by (simp add: round_mag_zero)
qed

section \<open>Printf-style formatting\<close>

lemma snprintf_trial:
  "snprintf render [] 0 format args =
     Inr ([], case render format args of
               None \<Rightarrow> - 1
             | Some s \<Rightarrow> if INT_MAX < int (length s) then - 1 else int (length s))"
  by (simp add: snprintf_def split: option.splits)

lemma trial_pass_eq:
  "trial_pass render format args =
     (case render format args of
        None \<Rightarrow> - 1
      | Some s \<Rightarrow> if INT_MAX < int (length s) then - 1 else int (length s))"
  by (simp add: trial_pass_def snprintf_trial)

lemma snprintf_whole:
  assumes "render format args = Some s" and "int (length s) < INT_MAX"
  shows "snprintf render buf (Suc (length s)) format args =
           (if length buf < Suc (length s) then Inl BufferOverflow
            else Inr (s @ [CHR 0x00] @ drop (Suc (length s)) buf, int (length s)))"
  using assms by (simp add: snprintf_def Let_def)

lemma StringFormat_buffer_fits:
  assumes "render format args = Some s" and "int (length s) < INT_MAX"
  shows "StringFormat_buffer render garbage format args = Inr (int (length s) + 1, s @ [CHR 0x00])"
proof -
  have w: "wrap32 (int (length s) + 1) = int (length s) + 1"
    using assms(2) by (intro wrap32_id) (simp add: is_int32_def INT_MAX_def)
  have n: "nat (int (length s) + 1) = Suc (length s)"
    by simp
  have l: "length (new_char_array garbage (Suc (length s))) = Suc (length s)"
    by (simp add: new_char_array_def)
  show ?thesis
    using assms
    by (simp add: StringFormat_buffer_def snprintf_trial w n snprintf_whole l Let_def)
qed

lemma StringFormat_buffer_throws:
  "StringFormat_buffer render garbage format args = Inl (RuntimeError ''Error during formatting.'')
     \<longleftrightarrow> trial_pass render format args < 0 \<or> trial_pass render format args = INT_MAX"
proof (cases "render format args")
  case None
  then show ?thesis
    by (simp add: StringFormat_buffer_def snprintf_trial trial_pass_eq wrap32_def INT_MAX_def)
next
  case (Some s)
  consider "INT_MAX < int (length s)" | "int (length s) = INT_MAX" | "int (length s) < INT_MAX"
    by linarith
  then show ?thesis
  proof cases
    case 1
    with Some show ?thesis
      by (simp add: StringFormat_buffer_def snprintf_trial trial_pass_eq wrap32_def INT_MAX_def)
  next
    case 2
    with Some show ?thesis
      by (simp add: StringFormat_buffer_def snprintf_trial trial_pass_eq wrap32_def INT_MAX_def)
  next
    case 3
    with Some StringFormat_buffer_fits [of render format args s garbage] show ?thesis
      by (simp add: trial_pass_eq)
  qed
qed

lemma StringFormat_below_INT_MAX:
  "(trial_pass render format args \<noteq> INT_MAX \<longrightarrow>
      (StringFormat render garbage format args = Inl (RuntimeError ''Error during formatting.'')
        \<longleftrightarrow> trial_pass render format args < 0))
   \<and> (render format args = Some s \<and> int (length s) < INT_MAX
      \<longrightarrow> trial_pass render format args = int (length s)
          \<and> StringFormat_buffer render garbage format args = Inr (int (length s) + 1, s @ [CHR 0x00])
          \<and> StringFormat render garbage format args = Inr s)
   \<and> (render format args = Some [] \<longrightarrow> StringFormat render garbage format args = Inr [])"
proof (intro conjI impI)
  assume "trial_pass render format args \<noteq> INT_MAX"
  then show "StringFormat render garbage format args = Inl (RuntimeError ''Error during formatting.'')
        \<longleftrightarrow> trial_pass render format args < 0"
    using StringFormat_buffer_throws [of render garbage format args]
    by (auto simp: StringFormat_def split: sum.splits)
next
  assume a: "render format args = Some s \<and> int (length s) < INT_MAX"
  then show "trial_pass render format args = int (length s)"
    by (simp add: trial_pass_eq)
  from a show b: "StringFormat_buffer render garbage format args = Inr (int (length s) + 1, s @ [CHR 0x00])"
    by (simp add: StringFormat_buffer_fits)
  show "StringFormat render garbage format args = Inr s"
    by (simp add: StringFormat_def b)
next
  assume "render format args = Some []"
  then show "StringFormat render garbage format args = Inr []"
    by (simp add: StringFormat_def StringFormat_buffer_fits INT_MAX_def)
qed

theorem StringFormat_throws_at_INT_MAX:
  "trial_pass (\<lambda>f a. Some (replicate 2147483647 a)) ''%s'' CHR ''x'' = 2147483647
   \<and> StringFormat (\<lambda>f a. Some (replicate 2147483647 a)) garbage ''%s'' CHR ''x''
       = Inl (RuntimeError ''Error during formatting.'')"
  by (simp add: StringFormat_def StringFormat_buffer_def snprintf_trial trial_pass_eq wrap32_def
      INT_MAX_def)

end
